theory Spec2Isabelle
  imports Main "HOL-Library.AList"
begin

section \<open>TripletUI: values, host environment and the DOM\<close>

text \<open>
  The repository is one JavaScript class, \<^verbatim>\<open>TripletUI\<close> (src/index.mjs), with the
  methods \<^verbatim>\<open>set\<close>, \<^verbatim>\<open>on\<close>, \<^verbatim>\<open>publish\<close> and \<^verbatim>\<open>render\<close>. An instance is an ordinary
  JavaScript object: its fields are own properties that \<^verbatim>\<open>set\<close> can overwrite, so the
  instance is modelled as its list of own properties (in creation order), holding
  JavaScript values.

  Functions (listeners, the compiled template) and DOM nodes are identified by
  numbers; what a function does when it is called belongs to the caller and is a
  parameter of the model: a function returns a value or throws, depending on its
  arguments and on the calls made before it, and every call is recorded. A function
  that changes the instance or the document while it runs is not represented.
  Arrays and plain objects are held by value: sharing one array between two
  properties is not represented (the class never creates such sharing itself). The
  instance itself can be handed around, as in \<^verbatim>\<open>ui.set("eventListeners", ui)\<close>; the
  value \<open>JThis\<close> is that reference, and what is done through it is done to the instance.

  \<open>set_prop\<close>, \<open>on\<close>, \<open>publish\<close> and \<open>render\<close> below are the bodies of the methods. A
  caller's \<^verbatim>\<open>ui.render(parent)\<close> first looks the method up on the instance, where an own
  property of that name comes before the method of the class; \<open>invoke\<close> is that call.
\<close>

type_synonym node = nat
type_synonym fid = nat

datatype jsval =
    JUndefined
  | JNull
  | JBool bool
  | JNum int
  | JStr string
  | JFun fid
  | JNode node
  | JArr "jsval list"
  | JObj "(string \<times> jsval) list"
  | JThis

type_synonym props = "(string \<times> jsval) list"

datatype jsexn =
    TypeError
  | HierarchyRequestError
  | SyntaxError
  | Thrown jsval

text \<open>
  The outcome of an operation: it returns, it throws, or the input lies outside what
  this development models (\<open>Unmodelled\<close>: host objects used as property bags, replaced
  prototypes). No theorem below says anything about an \<open>Unmodelled\<close> outcome.
\<close>

datatype 'a result = Return 'a | Throw jsexn | Unmodelled

text \<open>What a method hands back: \<^verbatim>\<open>return this\<close>, or nothing.\<close>

datatype ret = RThis | RUndefined

subsection \<open>Own properties of a plain object\<close>

text \<open>
  A plain object (\<^verbatim>\<open>{}\<close>, or a class instance) inherits the accessor \<^verbatim>\<open>__proto__\<close>
  from \<^verbatim>\<open>Object.prototype\<close>: assigning to that key never creates an own property, it
  replaces the prototype when the value is an object or \<^verbatim>\<open>null\<close> and does nothing
  otherwise. The entry under \<open>''__proto__''\<close> of a property list therefore stands for
  the prototype that was assigned, not for an own property.
\<close>

definition is_object :: "jsval \<Rightarrow> bool" where
  "is_object v = (case v of JFun _ \<Rightarrow> True | JNode _ \<Rightarrow> True | JArr _ \<Rightarrow> True
                   | JObj _ \<Rightarrow> True | JThis \<Rightarrow> True | _ \<Rightarrow> False)"

definition has_own :: "props \<Rightarrow> string \<Rightarrow> bool" where
  "has_own ps k = (k \<noteq> ''__proto__'' \<and> map_of ps k \<noteq> None)"

definition put :: "string \<Rightarrow> jsval \<Rightarrow> props \<Rightarrow> props" where
  "put k v ps =
     (if k = ''__proto__''
      then (if is_object v \<or> v = JNull then AList.update k v ps else ps)
      else AList.update k v ps)"

text \<open>
  Reading \<^verbatim>\<open>obj[k]\<close> for a name that the built-in prototypes do not define: the own
  property, else \<^verbatim>\<open>undefined\<close>; a lookup that would continue into a replaced
  prototype is not modelled.
\<close>

definition get_prop :: "props \<Rightarrow> string \<Rightarrow> jsval result" where
  "get_prop ps k =
     (case map_of ps k of
        Some v \<Rightarrow> Return v
      | None \<Rightarrow>
          (if k = ''__proto__'' then Unmodelled
           else (case map_of ps ''__proto__'' of
                   None \<Rightarrow> Return JUndefined
                 | Some JNull \<Rightarrow> Return JUndefined
                 | Some _ \<Rightarrow> Unmodelled)))"

definition truthy :: "jsval \<Rightarrow> bool" where
  "truthy v = (case v of JUndefined \<Rightarrow> False | JNull \<Rightarrow> False | JBool b \<Rightarrow> b
                | JNum n \<Rightarrow> n \<noteq> 0 | JStr s \<Rightarrow> s \<noteq> [] | _ \<Rightarrow> True)"

text \<open>\<^verbatim>\<open>ToString\<close>, for the values whose text does not depend on the host.\<close>

definition to_string :: "jsval \<Rightarrow> string result" where
  "to_string v = (case v of
       JStr s \<Rightarrow> Return s
     | JUndefined \<Rightarrow> Return ''undefined''
     | JNull \<Rightarrow> Return ''null''
     | JBool b \<Rightarrow> Return (if b then ''true'' else ''false'')
     | _ \<Rightarrow> Unmodelled)"

text \<open>\<^verbatim>\<open>v[i]\<close> for the index \<open>i\<close>: out of range is \<^verbatim>\<open>undefined\<close>, not an error.\<close>

definition index :: "jsval \<Rightarrow> nat \<Rightarrow> jsval result" where
  "index v i = (case v of
       JUndefined \<Rightarrow> Throw TypeError
     | JNull \<Rightarrow> Throw TypeError
     | JArr xs \<Rightarrow> Return (if i < length xs then xs ! i else JUndefined)
     | JStr s \<Rightarrow> Return (if i < length s then JStr [s ! i] else JUndefined)
     | JBool _ \<Rightarrow> Return JUndefined
     | JNum _ \<Rightarrow> Return JUndefined
     | JFun _ \<Rightarrow> Return JUndefined
     | _ \<Rightarrow> Unmodelled)"

subsection \<open>The document\<close>

text \<open>
  The DOM is the host's. Nodes are elements; each has at most one parent. The handler
  that \<^verbatim>\<open>render\<close> attaches is the closure
  \<^verbatim>\<open>function (event) { this.publish(eventBinding[2], event); }.bind(this)\<close>; it is
  represented by the binding it captured.
\<close>

datatype frag = Frag string "frag list"

datatype handler = Relay jsval

record dom =
  next_node :: node
  label :: "node \<Rightarrow> string"
  parent :: "node \<Rightarrow> node option"
  children :: "node \<Rightarrow> node list"
  inner_html :: "node \<Rightarrow> string"
  handlers :: "node \<Rightarrow> (string \<times> handler) list"

definition createElement :: "string \<Rightarrow> dom \<Rightarrow> node \<times> dom" where
  "createElement l d =
     (let n = next_node d in
      (n, d\<lparr> next_node := Suc n,
             label := (label d)(n := l),
             parent := (parent d)(n := None),
             children := (children d)(n := []),
             inner_html := (inner_html d)(n := []),
             handlers := (handlers d)(n := []) \<rparr>))"

text \<open>The nodes a parsed fragment stands for are created in document order.\<close>

fun graft :: "node \<Rightarrow> frag \<Rightarrow> dom \<Rightarrow> dom"
  and graft_all :: "node \<Rightarrow> frag list \<Rightarrow> dom \<Rightarrow> dom" where
  "graft p (Frag l fs) d =
     (case createElement l d of
        (n, d1) \<Rightarrow>
          graft_all n fs
            (d1\<lparr> parent := (parent d1)(n := Some p),
                 children := (children d1)(p := children d1 p @ [n]) \<rparr>))"
| "graft_all p [] d = d"
| "graft_all p (f # fs) d = graft_all p fs (graft p f d)"

text \<open>
  Assigning \<^verbatim>\<open>innerHTML\<close>: every child of the node is removed, and the parse of the
  markup becomes its new content.
\<close>

definition set_innerHTML :: "(string \<Rightarrow> frag list) \<Rightarrow> node \<Rightarrow> string \<Rightarrow> dom \<Rightarrow> dom" where
  "set_innerHTML parse c s d =
     graft_all c (parse s)
       (d\<lparr> parent := (\<lambda>n. if n \<in> set (children d c) then None else parent d n),
           children := (children d)(c := []),
           inner_html := (inner_html d)(c := s) \<rparr>)"

text \<open>
  The inclusive ancestors of a node, following parent links for at most \<open>k\<close> steps.
\<close>

fun ancestors :: "dom \<Rightarrow> nat \<Rightarrow> node \<Rightarrow> node list" where
  "ancestors d 0 n = [n]"
| "ancestors d (Suc k) n =
     n # (case parent d n of None \<Rightarrow> [] | Some m \<Rightarrow> ancestors d k m)"

text \<open>
  \<^verbatim>\<open>parent.appendChild(child)\<close>: a node that is an inclusive ancestor of the parent
  cannot be inserted; otherwise the child is first removed from the parent it has,
  then added as the last child of the new one. A chain of parents is never longer than
  the number of nodes created.
\<close>

definition appendChild :: "node \<Rightarrow> node \<Rightarrow> dom \<Rightarrow> dom result" where
  "appendChild p c d =
     (if c \<in> set (ancestors d (next_node d) p) then Throw HierarchyRequestError
      else
        (let d1 = (case parent d c of
                     None \<Rightarrow> d
                   | Some q \<Rightarrow> d\<lparr> children := (children d)(q := removeAll c (children d q)) \<rparr>)
         in Return (d1\<lparr> children := (children d1)(p := children d1 p @ [c]),
                        parent := (parent d1)(c := Some p) \<rparr>)))"

definition addEventListener :: "node \<Rightarrow> string \<Rightarrow> handler \<Rightarrow> dom \<Rightarrow> dom" where
  "addEventListener n ty cb d = d\<lparr> handlers := (handlers d)(n := handlers d n @ [(ty, cb)]) \<rparr>"

subsection \<open>The host and the state\<close>

text \<open>
  What the program takes from outside: \<^verbatim>\<open>handlebars.compile\<close>, the HTML parser behind
  \<^verbatim>\<open>innerHTML\<close>, the selector engine behind \<^verbatim>\<open>querySelectorAll\<close> (\<open>None\<close>: the
  selector does not parse), and the behaviour of every function value: given its
  arguments and the calls made so far, it returns a value or throws.
\<close>

type_synonym call = "fid \<times> jsval list"

record host =
  compile :: "jsval \<Rightarrow> fid result"
  parse_html :: "string \<Rightarrow> frag list"
  query_selector_all :: "dom \<Rightarrow> node \<Rightarrow> string \<Rightarrow> node list option"
  apply_fun :: "fid \<Rightarrow> jsval list \<Rightarrow> call list \<Rightarrow> jsval result"

record state =
  this :: props
  doc :: dom
  calls :: "call list"

definition seq :: "'a result \<times> state \<Rightarrow> ('a \<Rightarrow> state \<Rightarrow> 'b result \<times> state) \<Rightarrow> 'b result \<times> state" where
  "seq m f = (case m of
       (Return a, s) \<Rightarrow> f a s
     | (Throw e, s) \<Rightarrow> (Throw e, s)
     | (Unmodelled, s) \<Rightarrow> (Unmodelled, s))"

text \<open>Calling a value: only a function can be called; the call is recorded.\<close>

definition call_fun :: "host \<Rightarrow> jsval \<Rightarrow> jsval list \<Rightarrow> state \<Rightarrow> jsval result \<times> state" where
  "call_fun h f args s =
     (case f of
        JFun n \<Rightarrow> (apply_fun h n args (calls s), s\<lparr> calls := calls s @ [(n, args)] \<rparr>)
      | _ \<Rightarrow> (Throw TypeError, s))"

section \<open>The class\<close>

subsection \<open>Constructor and \<^verbatim>\<open>set\<close>\<close>

text \<open>
  \<^verbatim>\<open>constructor(RAW_TEMPLATE)\<close>: a detached \<^verbatim>\<open>div\<close>, an empty binding array, an empty
  listener object, and the compiled template, in this order. When the compilation
  throws there is no instance, and the \<^verbatim>\<open>div\<close> already created is unreachable.
\<close>

definition new_TripletUI :: "host \<Rightarrow> jsval \<Rightarrow> dom \<Rightarrow> call list \<Rightarrow> state result" where
  "new_TripletUI h raw d cs =
     (case createElement ''div'' d of
        (c, d1) \<Rightarrow>
          (case compile h raw of
             Return t \<Rightarrow>
               Return \<lparr> this = [(''subdom'', JNode c),
                                (''eventInterfaces'', JArr []),
                                (''eventListeners'', JObj []),
                                (''compiledTemplate'', JFun t)],
                        doc = d1, calls = cs \<rparr>
           | Throw e \<Rightarrow> Throw e
           | Unmodelled \<Rightarrow> Unmodelled))"

text \<open>
  \<^verbatim>\<open>set(key, value) { this[key] = value; return this; }\<close> An object cannot be made its
  own prototype: that assignment throws.
\<close>

definition set_prop :: "string \<Rightarrow> jsval \<Rightarrow> state \<Rightarrow> ret result \<times> state" where
  "set_prop key v s =
     (if key = ''__proto__'' \<and> v = JThis then (Throw TypeError, s)
      else (Return RThis, s\<lparr> this := put key v (this s) \<rparr>))"

subsection \<open>\<^verbatim>\<open>on\<close> and \<^verbatim>\<open>publish\<close>\<close>

text \<open>
  \<^verbatim>\<open>this.eventListeners.hasOwnProperty(tag)\<close>. The method is looked up on the listener
  object itself first: an own property named \<^verbatim>\<open>hasOwnProperty\<close> (which the class
  creates when that name is used as a tag) is what gets called. A primitive in the
  place of the listener object makes every path through \<^verbatim>\<open>on\<close> and \<^verbatim>\<open>publish\<close> end
  in a \<^verbatim>\<open>TypeError\<close> with nothing done before it, which is reported here.
\<close>

definition hasOwnProperty_call :: "host \<Rightarrow> jsval \<Rightarrow> string \<Rightarrow> state \<Rightarrow> bool result \<times> state" where
  "hasOwnProperty_call h L tag s =
     (case L of
        JObj ps \<Rightarrow>
          (case map_of ps ''hasOwnProperty'' of
             Some m \<Rightarrow> seq (call_fun h m [JStr tag] s) (\<lambda>v s'. (Return (truthy v), s'))
           | None \<Rightarrow>
               (case map_of ps ''__proto__'' of
                  Some JNull \<Rightarrow> (Throw TypeError, s)
                | Some (JObj q) \<Rightarrow> (Unmodelled, s)
                | _ \<Rightarrow> (Return (has_own ps tag), s)))
      | JThis \<Rightarrow>
          (case map_of (this s) ''hasOwnProperty'' of
             Some m \<Rightarrow> seq (call_fun h m [JStr tag] s) (\<lambda>v s'. (Return (truthy v), s'))
           | None \<Rightarrow>
               (case map_of (this s) ''__proto__'' of
                  Some JNull \<Rightarrow> (Throw TypeError, s)
                | Some (JObj q) \<Rightarrow> (Unmodelled, s)
                | _ \<Rightarrow> (Return (has_own (this s) tag), s)))
      | JUndefined \<Rightarrow> (Throw TypeError, s)
      | JNull \<Rightarrow> (Throw TypeError, s)
      | JBool _ \<Rightarrow> (Throw TypeError, s)
      | JNum _ \<Rightarrow> (Throw TypeError, s)
      | JStr _ \<Rightarrow> (Throw TypeError, s)
      | _ \<Rightarrow> (Unmodelled, s))"

text \<open>
  The guard shared by \<^verbatim>\<open>on\<close> and \<^verbatim>\<open>publish\<close>:
  \<^verbatim>\<open>if (!this.eventListeners.hasOwnProperty(tag)) { this.eventListeners[tag] = []; }\<close>
  It yields the properties of the listener object as they are afterwards. A listener
  object held in the field is stored back; when the field refers to the instance
  itself, the assignment is one to the instance.
\<close>

definition ensure_tag :: "host \<Rightarrow> string \<Rightarrow> state \<Rightarrow> props result \<times> state" where
  "ensure_tag h tag s =
     seq (get_prop (this s) ''eventListeners'', s) (\<lambda>L s.
     seq (hasOwnProperty_call h L tag s) (\<lambda>b s.
       (case L of
          JObj ps \<Rightarrow>
            (if b then (Return ps, s)
             else (let ps' = put tag (JArr []) ps
                   in (Return ps', s\<lparr> this := AList.update ''eventListeners'' (JObj ps') (this s) \<rparr>)))
        | JThis \<Rightarrow>
            (if b then (Return (this s), s)
             else (let ps' = put tag (JArr []) (this s)
                   in (Return ps', s\<lparr> this := ps' \<rparr>)))
        | _ \<Rightarrow> (Unmodelled, s))))"

text \<open>
  \<^verbatim>\<open>this.eventListeners[tag]\<close> after the guard. Without an entry the value is
  inherited or \<^verbatim>\<open>undefined\<close>; the built-in prototypes hold nothing with a \<^verbatim>\<open>push\<close>
  or \<^verbatim>\<open>forEach\<close> of its own, so the method call that follows is a \<^verbatim>\<open>TypeError\<close>.
\<close>

definition listeners_at :: "props \<Rightarrow> string \<Rightarrow> jsval list result" where
  "listeners_at ps tag =
     (case map_of ps tag of
        Some (JArr xs) \<Rightarrow> Return xs
      | Some (JObj q) \<Rightarrow> Unmodelled
      | Some JThis \<Rightarrow> Unmodelled
      | Some _ \<Rightarrow> Throw TypeError
      | None \<Rightarrow> (if map_of ps ''__proto__'' = None then Throw TypeError else Unmodelled))"

text \<open>
  \<^verbatim>\<open>on(tag, listener)\<close>: the guard, then
  \<^verbatim>\<open>this.eventListeners[tag].push(listener); return this;\<close> The push changes the
  array in place, in the object \<^verbatim>\<open>this.eventListeners\<close> refers to: the listener object
  held in the field, or the instance itself.
\<close>

definition on :: "host \<Rightarrow> string \<Rightarrow> jsval \<Rightarrow> state \<Rightarrow> ret result \<times> state" where
  "on h tag listener s =
     seq (ensure_tag h tag s) (\<lambda>ps s.
     seq (listeners_at ps tag, s) (\<lambda>xs s.
       (Return RThis,
        (case map_of (this s) ''eventListeners'' of
           Some JThis \<Rightarrow> s\<lparr> this := AList.update tag (JArr (xs @ [listener])) (this s) \<rparr>
         | _ \<Rightarrow> s\<lparr> this := AList.update ''eventListeners''
                          (JObj (AList.update tag (JArr (xs @ [listener])) ps)) (this s) \<rparr>))))"

text \<open>\<^verbatim>\<open>forEach(listener => listener(event))\<close>: in order, stopping at the first throw.\<close>

fun run_listeners :: "host \<Rightarrow> jsval list \<Rightarrow> jsval \<Rightarrow> state \<Rightarrow> unit result \<times> state" where
  "run_listeners h [] ev s = (Return (), s)"
| "run_listeners h (l # ls) ev s =
     seq (call_fun h l [ev] s) (\<lambda>_ s'. run_listeners h ls ev s')"

text \<open>
  \<^verbatim>\<open>publish(tag, event)\<close>: the guard, then
  \<^verbatim>\<open>this.eventListeners[tag].forEach(listener => listener(event));\<close> and no
  \<^verbatim>\<open>return\<close>.
\<close>

definition publish :: "host \<Rightarrow> string \<Rightarrow> jsval \<Rightarrow> state \<Rightarrow> ret result \<times> state" where
  "publish h tag ev s =
     seq (ensure_tag h tag s) (\<lambda>ps s.
     seq (listeners_at ps tag, s) (\<lambda>xs s.
     seq (run_listeners h xs ev s) (\<lambda>_ s. (Return RUndefined, s))))"

subsection \<open>\<^verbatim>\<open>render\<close>\<close>

text \<open>
  \<^verbatim>\<open>this.subdom.innerHTML = v\<close>. The module is strict code: assigning a property on
  a primitive throws. \<^verbatim>\<open>null\<close> is written as the empty markup.
\<close>

definition assign_innerHTML :: "host \<Rightarrow> jsval \<Rightarrow> jsval \<Rightarrow> state \<Rightarrow> unit result \<times> state" where
  "assign_innerHTML h S v s =
     (case S of
        JNode c \<Rightarrow>
          seq ((case v of JNull \<Rightarrow> Return [] | _ \<Rightarrow> to_string v), s) (\<lambda>m s.
            (Return (), s\<lparr> doc := set_innerHTML (parse_html h) c m (doc s) \<rparr>))
      | JUndefined \<Rightarrow> (Throw TypeError, s)
      | JNull \<Rightarrow> (Throw TypeError, s)
      | JBool _ \<Rightarrow> (Throw TypeError, s)
      | JNum _ \<Rightarrow> (Throw TypeError, s)
      | JStr _ \<Rightarrow> (Throw TypeError, s)
      | _ \<Rightarrow> (Unmodelled, s))"

text \<open>\<^verbatim>\<open>parent.appendChild(this.subdom)\<close>\<close>

definition append_to :: "jsval \<Rightarrow> jsval \<Rightarrow> state \<Rightarrow> unit result \<times> state" where
  "append_to P S s =
     (case P of
        JNode p \<Rightarrow>
          (case S of
             JNode c \<Rightarrow>
               (case appendChild p c (doc s) of
                  Return d \<Rightarrow> (Return (), s\<lparr> doc := d \<rparr>)
                | Throw e \<Rightarrow> (Throw e, s)
                | Unmodelled \<Rightarrow> (Unmodelled, s))
           | _ \<Rightarrow> (Throw TypeError, s))
      | JObj _ \<Rightarrow> (Unmodelled, s)
      | _ \<Rightarrow> (Throw TypeError, s))"

text \<open>
  \<^verbatim>\<open>forEach(domNode => domNode.addEventListener(eventBinding[1], handler))\<close> over the
  nodes a query returned.
\<close>

fun bind_nodes :: "jsval \<Rightarrow> node list \<Rightarrow> state \<Rightarrow> unit result \<times> state" where
  "bind_nodes b [] s = (Return (), s)"
| "bind_nodes b (n # ns) s =
     seq (index b 1, s) (\<lambda>t s.
     seq (to_string t, s) (\<lambda>ty s.
       bind_nodes b ns (s\<lparr> doc := addEventListener n ty (Relay b) (doc s) \<rparr>)))"

text \<open>One binding: \<^verbatim>\<open>this.subdom.querySelectorAll(eventBinding[0]).forEach(...)\<close>\<close>

definition bind_one :: "host \<Rightarrow> jsval \<Rightarrow> state \<Rightarrow> unit result \<times> state" where
  "bind_one h b s =
     seq (get_prop (this s) ''subdom'', s) (\<lambda>S s.
     seq (index b 0, s) (\<lambda>q s.
       (case S of
          JNode c \<Rightarrow>
            seq (to_string q, s) (\<lambda>sel s.
              (case query_selector_all h (doc s) c sel of
                 None \<Rightarrow> (Throw SyntaxError, s)
               | Some ns \<Rightarrow> bind_nodes b ns s))
        | JObj _ \<Rightarrow> (Unmodelled, s)
        | _ \<Rightarrow> (Throw TypeError, s))))"

fun bind_all :: "host \<Rightarrow> jsval list \<Rightarrow> state \<Rightarrow> unit result \<times> state" where
  "bind_all h [] s = (Return (), s)"
| "bind_all h (b # bs) s = seq (bind_one h b s) (\<lambda>_ s'. bind_all h bs s')"

text \<open>\<^verbatim>\<open>this.eventInterfaces.forEach(eventBinding => ...)\<close>\<close>

definition bind_events :: "host \<Rightarrow> state \<Rightarrow> unit result \<times> state" where
  "bind_events h s =
     seq (get_prop (this s) ''eventInterfaces'', s) (\<lambda>E s.
       (case E of
          JArr bs \<Rightarrow> bind_all h bs s
        | JObj _ \<Rightarrow> (Unmodelled, s)
        | _ \<Rightarrow> (Throw TypeError, s)))"

text \<open>
  \<^verbatim>\<open>render(parent)\<close>: the template is called with the instance itself, the result
  becomes the content of \<^verbatim>\<open>subdom\<close>, \<^verbatim>\<open>subdom\<close> is appended to \<^verbatim>\<open>parent\<close>, the
  bindings are resolved, and the instance is returned.
\<close>

definition render :: "host \<Rightarrow> jsval \<Rightarrow> state \<Rightarrow> ret result \<times> state" where
  "render h P s =
     seq (get_prop (this s) ''subdom'', s) (\<lambda>S s.
     seq (get_prop (this s) ''compiledTemplate'', s) (\<lambda>T s.
     seq (call_fun h T [JObj (this s)] s) (\<lambda>v s.
     seq (assign_innerHTML h S v s) (\<lambda>_ s.
     seq (append_to P S s) (\<lambda>_ s.
     seq (bind_events h s) (\<lambda>_ s. (Return RThis, s)))))))"

text \<open>
  What an attached handler does when its event fires:
  \<^verbatim>\<open>this.publish(eventBinding[2], event)\<close>, where \<^verbatim>\<open>publish\<close> is looked up on the
  instance, so that an own property of that name comes before the method of the class.
\<close>

definition fire :: "host \<Rightarrow> handler \<Rightarrow> jsval \<Rightarrow> state \<Rightarrow> ret result \<times> state" where
  "fire h cb ev s =
     (case cb of
        Relay b \<Rightarrow>
          seq (index b 2, s) (\<lambda>t s.
            (case map_of (this s) ''publish'' of
               Some m \<Rightarrow> seq (call_fun h m [t, ev] s) (\<lambda>_ s. (Return RUndefined, s))
             | None \<Rightarrow>
                 (case map_of (this s) ''__proto__'' of
                    None \<Rightarrow> seq (to_string t, s) (\<lambda>tag s. publish h tag ev s)
                  | Some JNull \<Rightarrow> (Throw TypeError, s)
                  | Some _ \<Rightarrow> (Unmodelled, s)))))"

subsection \<open>Calling the methods\<close>

text \<open>
  \<^verbatim>\<open>ui.name(args)\<close>: an own property called \<open>name\<close> is what gets called (a
  \<^verbatim>\<open>TypeError\<close> unless it is a function; what a caller's function returns in the
  method's place is not modelled); otherwise the method of the class runs, unless the
  prototype of the instance has been replaced.
\<close>

definition invoke :: "host \<Rightarrow> string \<Rightarrow> jsval list \<Rightarrow> (state \<Rightarrow> ret result \<times> state) \<Rightarrow> state \<Rightarrow> ret result \<times> state" where
  "invoke h name args body s =
     (case map_of (this s) name of
        Some m \<Rightarrow> seq (call_fun h m args s) (\<lambda>_ s'. (Unmodelled, s'))
      | None \<Rightarrow>
          (case map_of (this s) ''__proto__'' of
             None \<Rightarrow> body s
           | Some (JObj _) \<Rightarrow> (Unmodelled, s)
           | Some _ \<Rightarrow> (Throw TypeError, s)))"

definition invoke_set :: "host \<Rightarrow> string \<Rightarrow> jsval \<Rightarrow> state \<Rightarrow> ret result \<times> state" where
  "invoke_set h key v = invoke h ''set'' [JStr key, v] (set_prop key v)"



definition invoke_render :: "host \<Rightarrow> jsval \<Rightarrow> state \<Rightarrow> ret result \<times> state" where
  "invoke_render h P = invoke h ''render'' [P] (render h P)"

text \<open>A chain \<^verbatim>\<open>ui.set(k1, v1).set(k2, v2)...\<close>: it goes on while the calls return.\<close>

fun set_all :: "host \<Rightarrow> (string \<times> jsval) list \<Rightarrow> state \<Rightarrow> ret result \<times> state" where
  "set_all h [] s = (Return RThis, s)"
| "set_all h ((key, v) # kvs) s =
     seq (invoke_set h key v s)
         (\<lambda>r s'. case r of RThis \<Rightarrow> set_all h kvs s' | RUndefined \<Rightarrow> (Throw TypeError, s'))"




subsection \<open>Observations\<close>

text \<open>The event-binding list of the instance: the value of its field \<^verbatim>\<open>eventInterfaces\<close>.\<close>

definition bindings_of :: "state \<Rightarrow> jsval option" where
  "bindings_of s = map_of (this s) ''eventInterfaces''"


definition held_listeners :: "state \<Rightarrow> bool" where
  "held_listeners s = (case map_of (this s) ''eventListeners'' of Some (JObj _) \<Rightarrow> True | _ \<Rightarrow> False)"

definition frame :: "state \<Rightarrow> jsval option \<times> bool" where
  "frame s = (bindings_of s, held_listeners s)"

text \<open>The document apart from its handlers.\<close>

definition tree_of :: "dom \<Rightarrow> node \<times> (node \<Rightarrow> node option) \<times> (node \<Rightarrow> node list) \<times> (node \<Rightarrow> string)" where
  "tree_of d = (next_node d, parent d, children d, inner_html d)"

text \<open>
  What the specification says of \<^verbatim>\<open>render\<close>, in its own words. A binding is a
  triple (selector, DOM event name, tag), held in the array as a three-element array.
  Step 3: for each binding in declaration order, query the descendants of the
  container matching the selector and attach to each match a handler for the event
  name. Steps 1 and 2 before it: replace the contents of the container by the markup,
  then append the container to the parent.
\<close>

definition binding :: "string \<times> string \<times> string \<Rightarrow> jsval" where
  "binding b = (case b of (sel, ev, tag) \<Rightarrow> JArr [JStr sel, JStr ev, JStr tag])"

fun spec_attach_bindings :: "host \<Rightarrow> node \<Rightarrow> (string \<times> string \<times> string) list \<Rightarrow> dom \<Rightarrow> dom option" where
  "spec_attach_bindings h c [] d = Some d"
| "spec_attach_bindings h c (b # bs) d =
     (case query_selector_all h d c (fst b) of
        None \<Rightarrow> None
      | Some ns \<Rightarrow>
          spec_attach_bindings h c bs
            (fold (\<lambda>n. addEventListener n (fst (snd b)) (Relay (binding b))) ns d))"

definition spec_render :: "host \<Rightarrow> node \<Rightarrow> node \<Rightarrow> string \<Rightarrow> (string \<times> string \<times> string) list \<Rightarrow> dom \<Rightarrow> dom option" where
  "spec_render h p c m bs d =
     (case appendChild p c (set_innerHTML (parse_html h) c m d) of
        Return d2 \<Rightarrow> spec_attach_bindings h c bs d2
      | _ \<Rightarrow> None)"

text \<open>
  The listeners currently held under a tag, and the states in which the listener object
  is what the constructor made, grown by \<^verbatim>\<open>on\<close> and \<^verbatim>\<open>publish\<close> with tags that
  do not name a member of \<^verbatim>\<open>Object.prototype\<close>: every entry is an array, and neither
  \<^verbatim>\<open>hasOwnProperty\<close> nor the prototype has been overwritten.
\<close>

definition is_array :: "jsval \<Rightarrow> bool" where
  "is_array v = (case v of JArr _ \<Rightarrow> True | _ \<Rightarrow> False)"

definition plain_listeners :: "props \<Rightarrow> bool" where
  "plain_listeners ps =
     (map_of ps ''hasOwnProperty'' = None \<and> map_of ps ''__proto__'' = None
      \<and> list_all (\<lambda>kv. is_array (snd kv)) ps)"

definition regular :: "state \<Rightarrow> bool" where
  "regular s = (case map_of (this s) ''eventListeners'' of
                  Some (JObj ps) \<Rightarrow> plain_listeners ps
                | _ \<Rightarrow> False)"

definition ordinary_tag :: "string \<Rightarrow> bool" where
  "ordinary_tag tag = (tag \<noteq> ''hasOwnProperty'' \<and> tag \<noteq> ''__proto__'')"

definition subscribers :: "state \<Rightarrow> string \<Rightarrow> jsval list" where
  "subscribers s tag =
     (case map_of (this s) ''eventListeners'' of
        Some (JObj ps) \<Rightarrow> (case map_of ps tag of Some (JArr xs) \<Rightarrow> xs | _ \<Rightarrow> [])
      | _ \<Rightarrow> [])"

text \<open>A sequence of \<^verbatim>\<open>on\<close> calls, as chained by a caller.\<close>

fun on_all :: "host \<Rightarrow> (string \<times> jsval) list \<Rightarrow> state \<Rightarrow> state" where
  "on_all h [] s = s"
| "on_all h ((tag, l) # regs) s = on_all h regs (snd (on h tag l s))"

subsection \<open>A concrete host and document\<close>

text \<open>
  A small host on which the definitions can be run: the template with number 0 renders
  the property \<^verbatim>\<open>name\<close> inside a \<^verbatim>\<open>span\<close>, function 2 throws, every other function returns
  \<^verbatim>\<open>undefined\<close>; non-empty markup parses to one element; every child of the queried
  node matches every selector except the empty one, which does not parse. The document
  starts with two detached elements, 0 and 1.
\<close>

definition demo_apply :: "fid \<Rightarrow> jsval list \<Rightarrow> call list \<Rightarrow> jsval result" where
  "demo_apply f args cs =
     (if f = 0 then
        (case args of
           [JObj ps] \<Rightarrow> (case map_of ps ''name'' of
              Some (JStr n) \<Rightarrow> Return (JStr (''<span class=item>'' @ n @ ''</span>''))
            | _ \<Rightarrow> Return (JStr []))
         | _ \<Rightarrow> Return (JStr []))
      else if f = 2 then Throw (Thrown (JStr ''boom''))
      else Return JUndefined)"

definition demo_host :: host where
  "demo_host =
     \<lparr> compile = (\<lambda>raw. case raw of JStr _ \<Rightarrow> Return 0 | _ \<Rightarrow> Throw (Thrown (JStr ''template''))),
       parse_html = (\<lambda>m. if m = [] then [] else [Frag m []]),
       query_selector_all = (\<lambda>d c sel. if sel = [] then None else Some (children d c)),
       apply_fun = demo_apply \<rparr>"

definition dom0 :: dom where
  "dom0 = \<lparr> next_node = 2, label = (\<lambda>_. ''div''), parent = (\<lambda>_. None),
            children = (\<lambda>_. []), inner_html = (\<lambda>_. []), handlers = (\<lambda>_. []) \<rparr>"

text \<open>The instance \<^verbatim>\<open>new TripletUI("{{name}}")\<close> in that document: its container is node 2.\<close>

definition inst0 :: state where
  "inst0 = \<lparr> this = [(''subdom'', JNode 2), (''eventInterfaces'', JArr []),
                      (''eventListeners'', JObj []), (''compiledTemplate'', JFun 0)],
             doc = snd (createElement ''div'' dom0), calls = [] \<rparr>"

text \<open>An instance with three listeners under one tag, the second of which throws.\<close>

definition three_listeners :: state where
  "three_listeners =
     inst0\<lparr> this := [(''subdom'', JNode 2), (''eventInterfaces'', JArr []),
                     (''eventListeners'', JObj [(''go'', JArr [JFun 1, JFun 2, JFun 3])]),
                     (''compiledTemplate'', JFun 0)] \<rparr>"

text \<open>
  The scenario of the specification: the property \<^verbatim>\<open>name\<close> is \<^verbatim>\<open>Alice\<close>, and there
  is one binding, \<^verbatim>\<open>(".item", "click", "itemClicked")\<close>; and the document the
  specification's steps make of it when it is rendered into element 0.
\<close>

definition alice :: state where
  "alice = inst0\<lparr> this := [(''subdom'', JNode 2),
                            (''eventInterfaces'', JArr [binding (''.item'', ''click'', ''itemClicked'')]),
                            (''eventListeners'', JObj []), (''compiledTemplate'', JFun 0),
                            (''name'', JStr ''Alice'')] \<rparr>"

definition alice_rendered :: dom where
  "alice_rendered =
     the (spec_render demo_host 0 2 ''<span class=item>Alice</span>''
            [(''.item'', ''click'', ''itemClicked'')] (doc alice))"

text \<open>The new instance rendered into element 0, and then into element 1.\<close>

definition first_render :: state where
  "first_render = snd (render demo_host (JNode 0) inst0)"

definition second_render :: state where
  "second_render = snd (render demo_host (JNode 1) first_render)"

text \<open>
  Two \<^verbatim>\<open>set\<close> calls on the same key; a document in which an element, node 3, has
  been created after the instance; a sequence of calls of all four methods, one of
  which throws; and the two calls that make the listener object the instance itself
  and then register a listener under the name of the binding list.
\<close>

definition later_doc :: dom where
  "later_doc = snd (createElement ''section'' (doc inst0))"

definition two_sets :: "(string \<times> jsval) list" where
  "two_sets = [(''name'', JStr ''Bob''), (''name'', JStr ''Alice'')]"



section \<open>Properties\<close>

subsection \<open>Sequencing and frame lemmas\<close>


lemma seq_Return:
  "seq m f = (Return r, s') \<Longrightarrow> \<exists>a s. m = (Return a, s) \<and> f a s = (Return r, s')"
  by (cases m; cases "fst m") (auto simp: seq_def split: result.splits)

lemma seq_frame:
  assumes "g (snd m) = x" and "\<And>a s. g s = x \<Longrightarrow> g (snd (f a s)) = x"
  shows "g (snd (seq m f)) = x"
  using assms by (cases m; cases "fst m") (auto simp: seq_def split: result.splits)

lemma call_fun_this: "this (snd (call_fun h f args s)) = this s"
  by (simp add: call_fun_def split: jsval.splits)

lemma call_fun_doc: "doc (snd (call_fun h f args s)) = doc s"
  by (simp add: call_fun_def split: jsval.splits)


lemma bindings_of_this: "this s' = this s \<Longrightarrow> bindings_of s' = bindings_of s"
  by (simp add: bindings_of_def)

lemma hasOwnProperty_call_this: "this (snd (hasOwnProperty_call h L tag s)) = this s"
  unfolding hasOwnProperty_call_def
  by (cases L) (auto split: option.splits jsval.splits intro!: seq_frame [where g = this] simp: call_fun_this)








subsection \<open>What \<^verbatim>\<open>publish\<close> returns\<close>

lemma new_TripletUI_this:
  "new_TripletUI h raw d cs = Return s \<Longrightarrow>
   \<exists>t. this s = [(''subdom'', JNode (next_node d)), (''eventInterfaces'', JArr []),
                 (''eventListeners'', JObj []), (''compiledTemplate'', JFun t)]"
  by (auto simp: new_TripletUI_def createElement_def Let_def split: result.splits)

lemma publish_fresh:
  assumes "map_of (this s) ''eventListeners'' = Some (JObj [])"
  shows "publish h tag ev s =
           (Return RUndefined,
            s\<lparr> this := AList.update ''eventListeners'' (JObj (put tag (JArr []) [])) (this s) \<rparr>)"
  using assms
  by (simp add: publish_def ensure_tag_def get_prop_def seq_def hasOwnProperty_call_def has_own_def
      Let_def put_def is_object_def listeners_at_def)

lemma new_inst0: "new_TripletUI demo_host (JStr ''{{name}}'') dom0 [] = Return inst0"
  by (simp add: new_TripletUI_def inst0_def demo_host_def createElement_def Let_def dom0_def)

text \<open>
  C10. \<^verbatim>\<open>publish\<close> never returns the instance, for every tag, event and state; on a
  freshly constructed instance it does return, and what it returns is \<^verbatim>\<open>undefined\<close>.
\<close>

theorem publish_returns_undefined:
  "fst (publish h tag ev s) \<noteq> Return RThis
   \<and> (new_TripletUI h raw d cs = Return s \<longrightarrow> fst (publish h tag ev s) = Return RUndefined)"
proof
  show "fst (publish h tag ev s) \<noteq> Return RThis"
  proof
    assume "fst (publish h tag ev s) = Return RThis"
    then obtain s' where "publish h tag ev s = (Return RThis, s')"
      by (cases "publish h tag ev s") simp
    then show False
      unfolding publish_def by (auto dest!: seq_Return)
  qed
next
  show "new_TripletUI h raw d cs = Return s \<longrightarrow> fst (publish h tag ev s) = Return RUndefined"
  proof
    assume "new_TripletUI h raw d cs = Return s"
    then obtain t where "this s = [(''subdom'', JNode (next_node d)), (''eventInterfaces'', JArr []),
                 (''eventListeners'', JObj []), (''compiledTemplate'', JFun t)]"
      using new_TripletUI_this by blast
    then have "map_of (this s) ''eventListeners'' = Some (JObj [])" by simp
    then show "fst (publish h tag ev s) = Return RUndefined"
      by (simp add: publish_fresh)
  qed
qed

theorem publish_returns_undefined_witness:
  "new_TripletUI demo_host (JStr ''{{name}}'') dom0 [] = Return inst0
   \<and> fst (publish demo_host ''go'' (JStr ''click'') inst0) = Return RUndefined
   \<and> fst (publish demo_host ''go'' (JStr ''click'') inst0) \<noteq> Return RThis"
  using publish_returns_undefined
    [of demo_host "''go''" "JStr ''click''" inst0 "JStr ''{{name}}''" dom0 "[]"] new_inst0
  by simp

subsection \<open>\<^verbatim>\<open>set\<close>\<close>

text \<open>
  For every key other than \<^verbatim>\<open>__proto__\<close>, \<^verbatim>\<open>set\<close> stores the value under the key,
  leaves every other property alone and returns the instance, so that chained calls
  leave both properties present.
\<close>

lemma set_prop_assigns:
  "key \<noteq> ''__proto__'' \<Longrightarrow>
     set_prop key v s = (Return RThis, s') \<Longrightarrow>
     get_prop (this s') key = Return v
     \<and> (\<forall>k. k \<noteq> key \<longrightarrow> map_of (this s') k = map_of (this s) k)"
  by (auto simp: set_prop_def put_def get_prop_def update_conv')

lemma set_prop_chain:
  assumes "k1 \<noteq> ''__proto__''" "k2 \<noteq> ''__proto__''" "k1 \<noteq> k2"
  shows "get_prop (this (snd (set_prop k2 v2 (snd (set_prop k1 v1 s))))) k1 = Return v1
       \<and> get_prop (this (snd (set_prop k2 v2 (snd (set_prop k1 v1 s))))) k2 = Return v2"
  using assms by (simp add: set_prop_def put_def get_prop_def update_conv')

text \<open>
  C8. The claim is that \<^verbatim>\<open>set\<close> assigns the property for any string key and any value.
  With the key \<^verbatim>\<open>__proto__\<close> and the value 1 the call returns the instance, but the
  instance is exactly what it was: no property of that name holds 1.
\<close>

theorem set_proto_key_not_assigned:
  "set_prop ''__proto__'' (JNum 1) inst0 = (Return RThis, inst0)
   \<and> map_of (this inst0) ''__proto__'' = None"
  by (simp add: set_prop_def put_def is_object_def inst0_def)

subsection \<open>Listeners: registration and publication\<close>

lemma list_all_update:
  "list_all P ps \<Longrightarrow> P (k, v) \<Longrightarrow> list_all P (AList.update k v ps)"
  by (induction ps) auto

lemma map_of_is_array:
  "list_all (\<lambda>kv. is_array (snd kv)) ps \<Longrightarrow> map_of ps k = Some v \<Longrightarrow> \<exists>xs. v = JArr xs"
  by (induction ps) (auto simp: is_array_def split: if_splits jsval.splits)

lemma ensure_tag_plain:
  assumes "map_of (this s) ''eventListeners'' = Some (JObj ps)"
    and "plain_listeners ps" and "ordinary_tag tag"
  shows "ensure_tag h tag s =
           (Return (if map_of ps tag = None then AList.update tag (JArr []) ps else ps),
            s\<lparr> this := AList.update ''eventListeners''
                 (JObj (if map_of ps tag = None then AList.update tag (JArr []) ps else ps)) (this s) \<rparr>)"
proof (cases "map_of ps tag")
  case None
  with assms show ?thesis
    by (simp add: ensure_tag_def get_prop_def seq_def hasOwnProperty_call_def has_own_def
        plain_listeners_def ordinary_tag_def put_def Let_def)
next
  case (Some v)
  from assms(1) have "AList.update ''eventListeners'' (JObj ps) (this s) = this s"
    by (simp add: update_triv)
  with Some assms show ?thesis
    by (simp add: ensure_tag_def get_prop_def seq_def hasOwnProperty_call_def has_own_def
        plain_listeners_def ordinary_tag_def)
qed

lemma on_regular:
  assumes "regular s" and "ordinary_tag tag"
  shows "\<exists>s'. on h tag l s = (Return RThis, s') \<and> regular s'
            \<and> subscribers s' tag = subscribers s tag @ [l]
            \<and> (\<forall>t. t \<noteq> tag \<longrightarrow> subscribers s' t = subscribers s t)
            \<and> calls s' = calls s \<and> doc s' = doc s"
proof -
  from assms(1) obtain ps where ps: "map_of (this s) ''eventListeners'' = Some (JObj ps)"
    and pl: "plain_listeners ps"
    by (auto simp: regular_def split: option.splits jsval.splits)
  let ?ps1 = "if map_of ps tag = None then AList.update tag (JArr []) ps else ps"
  have e: "ensure_tag h tag s =
     (Return ?ps1, s\<lparr> this := AList.update ''eventListeners'' (JObj ?ps1) (this s) \<rparr>)"
    using ensure_tag_plain [OF ps pl assms(2)] .
  have arr: "list_all (\<lambda>kv. is_array (snd kv)) ps" using pl by (simp add: plain_listeners_def)
  obtain xs where xs: "map_of ?ps1 tag = Some (JArr xs)" and sub: "subscribers s tag = xs"
  proof (cases "map_of ps tag")
    case None
    then show ?thesis using that ps by (simp add: update_conv' subscribers_def)
  next
    case (Some v)
    then obtain ys where "v = JArr ys" using map_of_is_array [OF arr] by blast
    with Some show ?thesis using that ps by (simp add: subscribers_def)
  qed
  let ?ps2 = "AList.update tag (JArr (xs @ [l])) ?ps1"
  let ?s' = "s\<lparr> this := AList.update ''eventListeners'' (JObj ?ps2) (this s) \<rparr>"
  have o: "on h tag l s = (Return RThis, ?s')"
    using xs by (simp add: on_def e seq_def listeners_at_def update_conv')
  have pl2: "plain_listeners ?ps2"
    using pl assms(2)
    by (auto simp: plain_listeners_def ordinary_tag_def update_conv' is_array_def
        intro!: list_all_update)
  have "regular ?s'" using pl2 by (simp add: regular_def update_conv')
  moreover have "subscribers ?s' tag = subscribers s tag @ [l]"
    using sub by (simp add: subscribers_def update_conv')
  moreover have "\<forall>t. t \<noteq> tag \<longrightarrow> subscribers ?s' t = subscribers s t"
    using ps by (auto simp: subscribers_def update_conv')
  ultimately show ?thesis using o by simp
qed


lemma publish_regular:
  assumes "regular s" and "ordinary_tag tag"
  shows "\<exists>s1. publish h tag ev s =
               seq (run_listeners h (subscribers s tag) ev s1) (\<lambda>_ s. (Return RUndefined, s))
            \<and> regular s1 \<and> (\<forall>t. subscribers s1 t = subscribers s t)
            \<and> (\<exists>ps xs. map_of (this s1) ''eventListeners'' = Some (JObj ps)
                        \<and> map_of ps tag = Some (JArr xs))
            \<and> calls s1 = calls s \<and> doc s1 = doc s"
proof -
  from assms(1) obtain ps where ps: "map_of (this s) ''eventListeners'' = Some (JObj ps)"
    and pl: "plain_listeners ps"
    by (auto simp: regular_def split: option.splits jsval.splits)
  let ?ps1 = "if map_of ps tag = None then AList.update tag (JArr []) ps else ps"
  let ?s1 = "s\<lparr> this := AList.update ''eventListeners'' (JObj ?ps1) (this s) \<rparr>"
  have e: "ensure_tag h tag s = (Return ?ps1, ?s1)"
    using ensure_tag_plain [OF ps pl assms(2)] .
  have arr: "list_all (\<lambda>kv. is_array (snd kv)) ps" using pl by (simp add: plain_listeners_def)
  obtain xs where xs: "map_of ?ps1 tag = Some (JArr xs)" and sub: "subscribers s tag = xs"
  proof (cases "map_of ps tag")
    case None
    then show ?thesis using that ps by (simp add: update_conv' subscribers_def)
  next
    case (Some v)
    then obtain ys where "v = JArr ys" using map_of_is_array [OF arr] by blast
    with Some show ?thesis using that ps by (simp add: subscribers_def)
  qed
  have p: "publish h tag ev s =
             seq (run_listeners h (subscribers s tag) ev ?s1) (\<lambda>_ s. (Return RUndefined, s))"
    using xs sub by (simp add: publish_def e seq_def listeners_at_def)
  have pl1: "plain_listeners ?ps1"
    using pl assms(2)
    by (auto simp: plain_listeners_def ordinary_tag_def update_conv' is_array_def
        intro!: list_all_update)
  have "regular ?s1" using pl1 by (simp add: regular_def update_conv')
  moreover have "\<forall>t. subscribers ?s1 t = subscribers s t"
    using ps by (auto simp: subscribers_def update_conv' split: option.splits)
  moreover have "\<exists>ps' xs. map_of (this ?s1) ''eventListeners'' = Some (JObj ps')
                        \<and> map_of ps' tag = Some (JArr xs)"
    using xs by (simp add: update_conv')
  ultimately show ?thesis using p by (intro exI [of _ ?s1]) simp
qed

lemma run_listeners_append:
  "run_listeners h (xs @ ys) ev s =
     seq (run_listeners h xs ev s) (\<lambda>_ s'. run_listeners h ys ev s')"
proof (induction xs arbitrary: s)
  case Nil
  show ?case by (simp add: seq_def)
next
  case (Cons x xs)
  show ?case
    by (cases "call_fun h x [ev] s"; cases "fst (call_fun h x [ev] s)")
       (auto simp: seq_def Cons.IH split: result.splits)
qed

lemma run_listeners_returning:
  assumes "\<forall>f \<in> set fs. \<forall>cs. \<exists>v. apply_fun h f [ev] cs = Return v"
  shows "run_listeners h (map JFun fs) ev s =
           (Return (), s\<lparr> calls := calls s @ map (\<lambda>f. (f, [ev])) fs \<rparr>)"
  using assms
proof (induction fs arbitrary: s)
  case Nil
  show ?case by simp
next
  case (Cons f fs)
  from Cons.prems obtain v where "apply_fun h f [ev] (calls s) = Return v"
    by (metis list.set_intros(1))
  moreover from Cons.prems have "\<forall>g \<in> set fs. \<forall>cs. \<exists>v. apply_fun h g [ev] cs = Return v"
    by simp
  ultimately show ?case
    by (simp add: call_fun_def seq_def Cons.IH)
qed

lemma publish_invokes_in_order:
  assumes "regular s" and "ordinary_tag tag" and "subscribers s tag = map JFun fs"
    and "\<forall>f \<in> set fs. \<forall>cs. \<exists>v. apply_fun h f [ev] cs = Return v"
  shows "\<exists>s'. publish h tag ev s = (Return RUndefined, s')
            \<and> calls s' = calls s @ map (\<lambda>f. (f, [ev])) fs"
proof -
  from publish_regular [OF assms(1,2)] obtain s1 where
    p: "publish h tag ev s =
          seq (run_listeners h (subscribers s tag) ev s1) (\<lambda>_ s. (Return RUndefined, s))"
    and c: "calls s1 = calls s" by blast
  show ?thesis
    by (simp add: p assms(3) run_listeners_returning [OF assms(4)] seq_def c)
qed

lemma publish_no_listeners:
  assumes "regular s" and "ordinary_tag tag" and "subscribers s tag = []"
  shows "\<exists>s'. publish h tag ev s = (Return RUndefined, s')
            \<and> calls s' = calls s \<and> subscribers s' tag = []
            \<and> (\<exists>ps. map_of (this s') ''eventListeners'' = Some (JObj ps)
                     \<and> map_of ps tag = Some (JArr []))"
proof -
  from publish_regular [OF assms(1,2)] obtain s1 where
    p: "publish h tag ev s =
          seq (run_listeners h (subscribers s tag) ev s1) (\<lambda>_ s. (Return RUndefined, s))"
    and c: "calls s1 = calls s" and sub: "\<forall>t. subscribers s1 t = subscribers s t"
    and k: "\<exists>ps xs. map_of (this s1) ''eventListeners'' = Some (JObj ps)
                        \<and> map_of ps tag = Some (JArr xs)" by blast
  from k obtain ps xs where ps: "map_of (this s1) ''eventListeners'' = Some (JObj ps)"
    and xs: "map_of ps tag = Some (JArr xs)" by blast
  have "subscribers s1 tag = xs" using ps xs by (simp add: subscribers_def)
  then have "xs = []" using sub assms(3) by simp
  then show ?thesis using p c sub assms(3) ps xs by (simp add: seq_def)
qed

lemma regular_fresh:
  "new_TripletUI h raw d cs = Return s \<Longrightarrow> regular s \<and> subscribers s tag = []"
  by (auto simp: new_TripletUI_def createElement_def Let_def regular_def plain_listeners_def
      subscribers_def split: result.splits)

lemma on_twice_fires_twice:
  assumes "regular s" and "ordinary_tag tag" and "subscribers s tag = []"
    and "\<forall>cs. \<exists>v. apply_fun h f [ev] cs = Return v"
  shows "\<exists>s'. publish h tag ev (snd (on h tag (JFun f) (snd (on h tag (JFun f) s))))
                 = (Return RUndefined, s')
            \<and> calls s' = calls s @ [(f, [ev]), (f, [ev])]"
proof -
  from on_regular [OF assms(1,2), of h "JFun f"] obtain s1 where
    s1: "on h tag (JFun f) s = (Return RThis, s1)" "regular s1"
        "subscribers s1 tag = subscribers s tag @ [JFun f]" "calls s1 = calls s" by blast
  from on_regular [OF s1(2) assms(2), of h "JFun f"] obtain s2 where
    s2: "on h tag (JFun f) s1 = (Return RThis, s2)" "regular s2"
        "subscribers s2 tag = subscribers s1 tag @ [JFun f]" "calls s2 = calls s1" by blast
  have sub: "subscribers s2 tag = map JFun [f, f]" using s1 s2 assms(3) by simp
  have ret: "\<forall>g \<in> set [f, f]. \<forall>cs. \<exists>v. apply_fun h g [ev] cs = Return v"
    using assms(4) by simp
  from publish_invokes_in_order [OF s2(2) assms(2) sub ret]
  show ?thesis using s1 s2 by simp
qed

lemma on_all_regular:
  assumes "regular s" and "\<forall>r \<in> set regs. ordinary_tag (fst r)"
  shows "regular (on_all h regs s)
       \<and> subscribers (on_all h regs s) tag
           = subscribers s tag @ map snd (filter (\<lambda>r. fst r = tag) regs)
       \<and> calls (on_all h regs s) = calls s"
  using assms
proof (induction regs arbitrary: s)
  case Nil
  then show ?case by simp
next
  case (Cons r regs)
  obtain t l where r: "r = (t, l)" by (cases r)
  from Cons.prems have ot: "ordinary_tag t" and rest: "\<forall>r \<in> set regs. ordinary_tag (fst r)"
    by (simp_all add: r)
  from on_regular [OF Cons.prems(1) ot, of h l] obtain s1 where
    s1: "on h t l s = (Return RThis, s1)" "regular s1"
        "subscribers s1 t = subscribers s t @ [l]"
        "\<forall>u. u \<noteq> t \<longrightarrow> subscribers s1 u = subscribers s u" "calls s1 = calls s" by blast
  from Cons.IH [OF s1(2) rest] s1 show ?case
    by (auto simp: r)
qed

lemma publish_after_registrations:
  assumes "new_TripletUI h raw d cs = Return s"
    and "\<forall>r \<in> set regs. ordinary_tag (fst r)" and "ordinary_tag tag"
    and "map snd (filter (\<lambda>r. fst r = tag) regs) = map JFun fs"
    and "\<forall>f \<in> set fs. \<forall>cs. \<exists>v. apply_fun h f [ev] cs = Return v"
  shows "\<exists>s'. publish h tag ev (on_all h regs s) = (Return RUndefined, s')
            \<and> calls s' = cs @ map (\<lambda>f. (f, [ev])) fs"
proof -
  from regular_fresh [OF assms(1)] have r: "regular s" and e: "subscribers s tag = []"
    by simp_all
  from on_all_regular [OF r assms(2), of h tag] e assms(4)
  have r': "regular (on_all h regs s)" and sub: "subscribers (on_all h regs s) tag = map JFun fs"
    and c: "calls (on_all h regs s) = calls s" by simp_all
  have "calls s = cs" using assms(1)
    by (auto simp: new_TripletUI_def createElement_def Let_def split: result.splits)
  with publish_invokes_in_order [OF r' assms(3) sub assms(5)] c show ?thesis by simp
qed

text \<open>
  C2. The claim is that for every tag \<^verbatim>\<open>publish\<close> invokes every listener registered
  under it. After \<^verbatim>\<open>on("hasOwnProperty", f)\<close> the listener object has an own
  property \<^verbatim>\<open>hasOwnProperty\<close> that is an array, so the guard of \<^verbatim>\<open>publish\<close> calls an
  array: \<^verbatim>\<open>publish("hasOwnProperty", e)\<close> throws a \<^verbatim>\<open>TypeError\<close> and \<^verbatim>\<open>f\<close> is not
  invoked. (For tags that name no member of \<^verbatim>\<open>Object.prototype\<close> the claim holds:
  \<open>publish_after_registrations\<close>.)
\<close>

theorem publish_hasOwnProperty_tag_fails:
  "on demo_host ''hasOwnProperty'' (JFun 1) inst0 =
     (Return RThis,
      inst0\<lparr> this := [(''subdom'', JNode 2), (''eventInterfaces'', JArr []),
                      (''eventListeners'', JObj [(''hasOwnProperty'', JArr [JFun 1])]),
                      (''compiledTemplate'', JFun 0)] \<rparr>)
   \<and> publish demo_host ''hasOwnProperty'' (JStr ''click'')
         (snd (on demo_host ''hasOwnProperty'' (JFun 1) inst0))
       = (Throw TypeError, snd (on demo_host ''hasOwnProperty'' (JFun 1) inst0))
   \<and> calls (snd (on demo_host ''hasOwnProperty'' (JFun 1) inst0)) = []"
  by (simp add: on_def publish_def ensure_tag_def get_prop_def seq_def hasOwnProperty_call_def
      has_own_def put_def Let_def listeners_at_def call_fun_def inst0_def)

text \<open>
  C3. The claim is that \<^verbatim>\<open>publish\<close> on a tag without listeners never fails. On a new
  instance \<^verbatim>\<open>publish("hasOwnProperty", e)\<close> returns and leaves an empty array under
  that name; from then on \<^verbatim>\<open>publish("go", e)\<close>, a tag nothing was ever registered
  under, throws a \<^verbatim>\<open>TypeError\<close>. (In a state where the listener object is intact the
  claim holds for the other tags: \<open>publish_no_listeners\<close>.)
\<close>

theorem publish_after_hasOwnProperty_fails:
  "fst (publish demo_host ''hasOwnProperty'' JNull inst0) = Return RUndefined
   \<and> subscribers (snd (publish demo_host ''hasOwnProperty'' JNull inst0)) ''go'' = []
   \<and> publish demo_host ''go'' JNull (snd (publish demo_host ''hasOwnProperty'' JNull inst0))
       = (Throw TypeError, snd (publish demo_host ''hasOwnProperty'' JNull inst0))"
  by (simp add: publish_def ensure_tag_def get_prop_def seq_def hasOwnProperty_call_def
      has_own_def put_def Let_def listeners_at_def call_fun_def inst0_def subscribers_def)

text \<open>
  C7. The claim is that a listener registered twice under a tag is invoked twice by a
  later \<^verbatim>\<open>publish\<close> on that tag. Under the tag \<^verbatim>\<open>__proto__\<close> both \<^verbatim>\<open>on\<close> calls
  return the instance, yet each one (and \<^verbatim>\<open>publish\<close> after them) replaces the
  prototype of the listener object by a new empty array, so \<^verbatim>\<open>publish\<close> returns
  having invoked nothing. Under the tag \<^verbatim>\<open>hasOwnProperty\<close> the second \<^verbatim>\<open>on\<close> call
  throws. (For tags that name no member of \<^verbatim>\<open>Object.prototype\<close> the listener is
  invoked twice: \<open>on_twice_fires_twice\<close>.)
\<close>

theorem on_twice_proto_tag_never_fires:
  "fst (on demo_host ''__proto__'' (JFun 1) inst0) = Return RThis
   \<and> fst (on demo_host ''__proto__'' (JFun 1) (snd (on demo_host ''__proto__'' (JFun 1) inst0)))
       = Return RThis
   \<and> fst (publish demo_host ''__proto__'' (JStr ''click'')
         (snd (on demo_host ''__proto__'' (JFun 1) (snd (on demo_host ''__proto__'' (JFun 1) inst0)))))
       = Return RUndefined
   \<and> calls (snd (publish demo_host ''__proto__'' (JStr ''click'')
         (snd (on demo_host ''__proto__'' (JFun 1) (snd (on demo_host ''__proto__'' (JFun 1) inst0))))))
       = []
   \<and> fst (on demo_host ''hasOwnProperty'' (JFun 1)
         (snd (on demo_host ''hasOwnProperty'' (JFun 1) inst0)))
       = Throw TypeError"
  by (simp add: on_def publish_def ensure_tag_def get_prop_def seq_def hasOwnProperty_call_def
      has_own_def put_def Let_def listeners_at_def call_fun_def inst0_def is_object_def)

subsection \<open>A listener that throws\<close>

text \<open>
  C4. When \<^verbatim>\<open>publish\<close> reaches the listeners of the tag and one of them throws, after
  the ones before it have returned, \<^verbatim>\<open>publish\<close> ends with that exception, and the call
  of the throwing listener is the last call made: no later listener is invoked.
\<close>

theorem listener_exception_propagates:
  assumes "ensure_tag h tag s = (Return ps, s1)"
    and "listeners_at ps tag = Return (pre @ JFun f # post)"
    and "run_listeners h pre ev s1 = (Return (), s2)"
    and "apply_fun h f [ev] (calls s2) = Throw e"
  shows "publish h tag ev s = (Throw e, s2\<lparr> calls := calls s2 @ [(f, [ev])] \<rparr>)"
  using assms
  by (simp add: publish_def seq_def run_listeners_append call_fun_def)

lemma three_listeners_built:
  "on_all demo_host [(''go'', JFun 1), (''go'', JFun 2), (''go'', JFun 3)] inst0 = three_listeners"
  by (simp add: on_def ensure_tag_def get_prop_def seq_def hasOwnProperty_call_def
      has_own_def put_def Let_def listeners_at_def inst0_def three_listeners_def)

theorem listener_exception_propagates_witness:
  "ensure_tag demo_host ''go'' three_listeners = (Return [(''go'', JArr [JFun 1, JFun 2, JFun 3])], three_listeners)
   \<and> listeners_at [(''go'', JArr [JFun 1, JFun 2, JFun 3])] ''go'' = Return ([JFun 1] @ JFun 2 # [JFun 3])
   \<and> run_listeners demo_host [JFun 1] (JStr ''click'') three_listeners
        = (Return (), three_listeners\<lparr> calls := [(1, [JStr ''click''])] \<rparr>)
   \<and> apply_fun demo_host 2 [JStr ''click''] [(1, [JStr ''click''])] = Throw (Thrown (JStr ''boom''))
   \<and> publish demo_host ''go'' (JStr ''click'') three_listeners
        = (Throw (Thrown (JStr ''boom'')),
           three_listeners\<lparr> calls := [(1, [JStr ''click'']), (2, [JStr ''click''])] \<rparr>)"
proof -
  have a: "ensure_tag demo_host ''go'' three_listeners
             = (Return [(''go'', JArr [JFun 1, JFun 2, JFun 3])], three_listeners)"
    by (simp add: ensure_tag_def get_prop_def seq_def hasOwnProperty_call_def has_own_def
        three_listeners_def inst0_def)
  have b: "listeners_at [(''go'', JArr [JFun 1, JFun 2, JFun 3])] ''go''
             = Return ([JFun 1] @ JFun 2 # [JFun 3])"
    by (simp add: listeners_at_def)
  have c: "run_listeners demo_host [JFun 1] (JStr ''click'') three_listeners
             = (Return (), three_listeners\<lparr> calls := [(1, [JStr ''click''])] \<rparr>)"
    by (simp add: seq_def call_fun_def demo_host_def demo_apply_def three_listeners_def inst0_def)
  have d: "apply_fun demo_host 2 [JStr ''click'']
             (calls (three_listeners\<lparr> calls := [(1, [JStr ''click''])] \<rparr>))
             = Throw (Thrown (JStr ''boom''))"
    by (simp add: demo_host_def demo_apply_def)
  from listener_exception_propagates [OF a b c d] a b c d show ?thesis by simp
qed

subsection \<open>The document under \<^verbatim>\<open>innerHTML\<close>, \<^verbatim>\<open>appendChild\<close> and the bindings\<close>

lemma graft_next_node:
  "next_node d \<le> next_node (graft p f d)"
  "next_node d \<le> next_node (graft_all p fs d)"
proof (induction p f d and p fs d rule: graft_graft_all.induct)
  case (1 p l fs d)
  then show ?case by (simp add: createElement_def Let_def)
next
  case (2 p d)
  show ?case by simp
next
  case (3 p f fs d)
  then show ?case by simp
qed

lemma graft_parent:
  "m < next_node d \<Longrightarrow> parent (graft p f d) m = parent d m"
  "m < next_node d \<Longrightarrow> parent (graft_all p fs d) m = parent d m"
proof (induction p f d and p fs d arbitrary: m and m rule: graft_graft_all.induct)
  case (1 p l fs d)
  then show ?case by (simp add: createElement_def Let_def)
next
  case (2 p d)
  show ?case by simp
next
  case (3 p f fs d)
  from "3.prems" graft_next_node(1) [of d p f] have "m < next_node (graft p f d)" by simp
  with 3 show ?case by simp
qed

lemma graft_inner_html:
  "m < next_node d \<Longrightarrow> inner_html (graft p f d) m = inner_html d m"
  "m < next_node d \<Longrightarrow> inner_html (graft_all p fs d) m = inner_html d m"
proof (induction p f d and p fs d arbitrary: m and m rule: graft_graft_all.induct)
  case (1 p l fs d)
  then show ?case by (simp add: createElement_def Let_def)
next
  case (2 p d)
  show ?case by simp
next
  case (3 p f fs d)
  from "3.prems" graft_next_node(1) [of d p f] have "m < next_node (graft p f d)" by simp
  with 3 show ?case by simp
qed

lemma graft_children_other:
  "q < next_node d \<Longrightarrow> q \<noteq> p \<Longrightarrow> children (graft p f d) q = children d q"
  "q < next_node d \<Longrightarrow> q \<noteq> p \<Longrightarrow> children (graft_all p fs d) q = children d q"
proof (induction p f d and p fs d arbitrary: q and q rule: graft_graft_all.induct)
  case (1 p l fs d)
  then show ?case by (simp add: createElement_def Let_def)
next
  case (2 p d)
  show ?case by simp
next
  case (3 p f fs d)
  from "3.prems" graft_next_node(1) [of d p f] have "q < next_node (graft p f d)" by simp
  with 3 show ?case by simp
qed

lemma graft_children_mem:
  "m \<in> set (children (graft p f d) q) \<Longrightarrow> m \<in> set (children d q) \<or> next_node d \<le> m"
  "m \<in> set (children (graft_all p fs d) q) \<Longrightarrow> m \<in> set (children d q) \<or> next_node d \<le> m"
proof (induction p f d and p fs d arbitrary: m q and m q rule: graft_graft_all.induct)
  case (1 p l fs d)
  define d1 where "d1 = snd (createElement l d)"
  have ce: "(next_node d, d1) = createElement l d"
    by (simp add: createElement_def Let_def d1_def)
  from "1.prems" have
    "m \<in> set (children (graft_all (next_node d) fs
        (d1\<lparr> parent := (parent d1)(next_node d := Some p),
             children := (children d1)(p := children d1 p @ [next_node d]) \<rparr>)) q)"
    by (simp add: ce [symmetric])
  from "1.IH" [OF ce this]
  show ?case by (auto simp: d1_def createElement_def Let_def split: if_splits)
next
  case (2 p d)
  then show ?case by simp
next
  case (3 p f fs d)
  from "3.prems" have "m \<in> set (children (graft_all p fs (graft p f d)) q)" by simp
  from "3.IH"(2) [OF this] have "m \<in> set (children (graft p f d) q) \<or> next_node (graft p f d) \<le> m" .
  then show ?case
  proof
    assume "m \<in> set (children (graft p f d) q)"
    from "3.IH"(1) [OF this] show ?thesis .
  next
    assume "next_node (graft p f d) \<le> m"
    with graft_next_node(1) [of d p f] show ?thesis by simp
  qed
qed


lemma set_innerHTML_next_node: "next_node d \<le> next_node (set_innerHTML ps c m d)"
  using graft_next_node(2) [of "d\<lparr> parent := (\<lambda>n. if n \<in> set (children d c) then None else parent d n),
           children := (children d)(c := []), inner_html := (inner_html d)(c := m) \<rparr>" c "ps m"]
  by (simp add: set_innerHTML_def)

lemma set_innerHTML_parent:
  "n < next_node d \<Longrightarrow>
   parent (set_innerHTML ps c m d) n = (if n \<in> set (children d c) then None else parent d n)"
  by (simp add: set_innerHTML_def graft_parent)

lemma set_innerHTML_inner_html:
  "c < next_node d \<Longrightarrow> inner_html (set_innerHTML ps c m d) c = m"
  by (simp add: set_innerHTML_def graft_inner_html)

lemma set_innerHTML_children_other:
  "q < next_node d \<Longrightarrow> q \<noteq> c \<Longrightarrow> children (set_innerHTML ps c m d) q = children d q"
  by (simp add: set_innerHTML_def graft_children_other)

lemma set_innerHTML_children_mem:
  assumes "n \<in> set (children (set_innerHTML ps c m d) q)"
  shows "(q \<noteq> c \<and> n \<in> set (children d q)) \<or> next_node d \<le> n"
  using graft_children_mem(2) [OF assms [unfolded set_innerHTML_def]]
  by (auto split: if_splits)

lemma ancestors_cong:
  "(\<And>n. n \<in> set (ancestors d k p) \<Longrightarrow> parent d' n = parent d n) \<Longrightarrow>
   ancestors d' k p = ancestors d k p"
proof (induction k arbitrary: p)
  case 0
  show ?case by simp
next
  case (Suc k)
  have pp: "parent d' p = parent d p" using Suc.prems [of p] by simp
  show ?case
  proof (cases "parent d p")
    case None
    with pp show ?thesis by simp
  next
    case (Some q)
    have "ancestors d' k q = ancestors d k q"
      using Suc.prems Some by (intro Suc.IH) simp
    with pp Some show ?thesis by simp
  qed
qed

lemma ancestors_bounded:
  assumes "\<forall>n q. n < N \<longrightarrow> parent d n = Some q \<longrightarrow> q < N" and "p < N"
  shows "\<forall>n \<in> set (ancestors d k p). n < N"
  using assms(2)
proof (induction k arbitrary: p)
  case 0
  then show ?case by simp
next
  case (Suc k)
  show ?case
  proof (cases "parent d p")
    case None
    with Suc.prems show ?thesis by simp
  next
    case (Some q)
    with assms(1) Suc.prems have "q < N" by blast
    from Suc.IH [OF this] Some Suc.prems show ?thesis by simp
  qed
qed

lemma appendChild_Return:
  assumes "appendChild p c d = Return d'"
  shows "p \<noteq> c" and "parent d' c = Some p" and "children d' p = (if parent d c = Some p then removeAll c (children d p) else children d p) @ [c]"
    and "next_node d' = next_node d" and "inner_html d' = inner_html d" and "handlers d' = handlers d"
    and "\<And>q. q \<noteq> p \<Longrightarrow> set (children d' q) \<subseteq> set (children d q)"
    and "\<And>q. q \<noteq> p \<Longrightarrow> parent d c \<noteq> Some q \<Longrightarrow> children d' q = children d q"
    and "\<And>q. q \<noteq> p \<Longrightarrow> parent d c = Some q \<Longrightarrow> c \<notin> set (children d' q)"
proof -
  have na: "c \<notin> set (ancestors d (next_node d) p)"
    using assms by (simp add: appendChild_def split: if_splits)
  have "p \<in> set (ancestors d (next_node d) p)" by (cases "next_node d") simp_all
  with na show "p \<noteq> c" by auto
  show "parent d' c = Some p" "next_node d' = next_node d" "inner_html d' = inner_html d"
    "handlers d' = handlers d"
    using assms by (auto simp: appendChild_def Let_def split: if_splits option.splits)
  show "children d' p = (if parent d c = Some p then removeAll c (children d p) else children d p) @ [c]"
    using assms by (auto simp: appendChild_def Let_def split: if_splits option.splits)
  show "\<And>q. q \<noteq> p \<Longrightarrow> set (children d' q) \<subseteq> set (children d q)"
    using assms by (auto simp: appendChild_def Let_def split: if_splits option.splits)
  show "\<And>q. q \<noteq> p \<Longrightarrow> parent d c \<noteq> Some q \<Longrightarrow> children d' q = children d q"
    using assms by (auto simp: appendChild_def Let_def split: if_splits option.splits)
  show "\<And>q. q \<noteq> p \<Longrightarrow> parent d c = Some q \<Longrightarrow> c \<notin> set (children d' q)"
    using assms by (auto simp: appendChild_def Let_def split: if_splits option.splits)
qed

lemma appendChild_detached:
  assumes "c \<notin> set (ancestors d (next_node d) p)" and "parent d c = None"
  shows "appendChild p c d =
           Return (d\<lparr> children := (children d)(p := children d p @ [c]),
                      parent := (parent d)(c := Some p) \<rparr>)"
  using assms by (simp add: appendChild_def)

lemma tree_of_addEventListener [simp]: "tree_of (addEventListener n ty cb d) = tree_of d"
  by (simp add: tree_of_def addEventListener_def)

lemma tree_of_fold_addEventListener [simp]:
  "tree_of (fold (\<lambda>n. addEventListener n ty cb) ns d) = tree_of d"
  by (induction ns arbitrary: d) simp_all

lemma spec_attach_bindings_tree:
  "spec_attach_bindings h c bs d = Some d' \<Longrightarrow> tree_of d' = tree_of d"
proof (induction bs arbitrary: d)
  case Nil
  then show ?case by simp
next
  case (Cons b bs)
  then show ?case by (auto split: option.splits)
qed

lemma bind_nodes_tree: "tree_of (doc (snd (bind_nodes b ns s))) = tree_of (doc s)"
proof (induction ns arbitrary: s)
  case Nil show ?case by simp
next
  case (Cons n ns)
  show ?case
    apply simp
    apply (rule seq_frame [where g = "\<lambda>s. tree_of (doc s)"], simp)
    apply (rule seq_frame [where g = "\<lambda>s. tree_of (doc s)"], simp)
    apply (simp add: Cons.IH)
    done
qed

lemma bind_one_tree: "tree_of (doc (snd (bind_one h b s))) = tree_of (doc s)"
  unfolding bind_one_def
  apply (rule seq_frame [where g = "\<lambda>s. tree_of (doc s)"], simp)
  apply (rule seq_frame [where g = "\<lambda>s. tree_of (doc s)"], simp)
  apply (auto split: jsval.splits option.splits
      intro!: seq_frame [where g = "\<lambda>s. tree_of (doc s)"] simp: bind_nodes_tree)
  done

lemma bind_all_tree: "tree_of (doc (snd (bind_all h bs s))) = tree_of (doc s)"
proof (induction bs arbitrary: s)
  case Nil show ?case by simp
next
  case (Cons b bs)
  show ?case
    by (simp, rule seq_frame [where g = "\<lambda>s. tree_of (doc s)"])
       (simp_all add: bind_one_tree Cons.IH)
qed

lemma bind_events_tree: "tree_of (doc (snd (bind_events h s))) = tree_of (doc s)"
  unfolding bind_events_def
  apply (rule seq_frame [where g = "\<lambda>s. tree_of (doc s)"], simp)
  apply (auto split: jsval.splits simp: bind_all_tree)
  done

lemma index_binding:
  "index (binding b) 0 = Return (JStr (fst b))"
  "index (binding b) 1 = Return (JStr (fst (snd b)))"
  "index (binding b) (Suc 0) = Return (JStr (fst (snd b)))"
  "index (binding b) 2 = Return (JStr (snd (snd b)))"
  by (cases b; simp add: binding_def index_def)+

lemma bind_nodes_binding:
  "bind_nodes (binding b) ns s =
     (Return (), s\<lparr> doc := fold (\<lambda>n. addEventListener n (fst (snd b)) (Relay (binding b))) ns (doc s) \<rparr>)"
proof (induction ns arbitrary: s)
  case Nil
  show ?case by simp
next
  case (Cons n ns)
  show ?case
    by (simp add: seq_def index_binding to_string_def Cons.IH)
qed

lemma bind_all_spec:
  assumes "map_of (this s) ''subdom'' = Some (JNode c)"
    and "spec_attach_bindings h c bs (doc s) = Some d'"
  shows "bind_all h (map binding bs) s = (Return (), s\<lparr> doc := d' \<rparr>)"
  using assms
proof (induction bs arbitrary: s)
  case Nil
  then show ?case by simp
next
  case (Cons b bs)
  from Cons.prems(2) obtain ns where q: "query_selector_all h (doc s) c (fst b) = Some ns"
    and rest: "spec_attach_bindings h c bs
                 (fold (\<lambda>n. addEventListener n (fst (snd b)) (Relay (binding b))) ns (doc s)) = Some d'"
    by (auto split: option.splits)
  let ?s1 = "s\<lparr> doc := fold (\<lambda>n. addEventListener n (fst (snd b)) (Relay (binding b))) ns (doc s) \<rparr>"
  have one: "bind_one h (binding b) s = (Return (), ?s1)"
    using Cons.prems(1) q
    by (simp add: bind_one_def get_prop_def seq_def bind_nodes_binding index_binding to_string_def)
  have "bind_all h (map binding bs) ?s1 = (Return (), ?s1\<lparr> doc := d' \<rparr>)"
    using Cons.prems(1) rest by (intro Cons.IH) simp_all
  with one show ?case by (simp add: seq_def)
qed

lemma render_steps:
  assumes "map_of (this s) ''subdom'' = Some (JNode c)"
    and "map_of (this s) ''compiledTemplate'' = Some (JFun t)"
    and "apply_fun h t [JObj (this s)] (calls s) = Return (JStr m)"
  shows "render h (JNode p) s =
     (case appendChild p c (set_innerHTML (parse_html h) c m (doc s)) of
        Return d2 \<Rightarrow>
          seq (bind_events h (s\<lparr> calls := calls s @ [(t, [JObj (this s)])], doc := d2 \<rparr>))
              (\<lambda>_ s. (Return RThis, s))
      | Throw e \<Rightarrow> (Throw e, s\<lparr> calls := calls s @ [(t, [JObj (this s)])],
                                doc := set_innerHTML (parse_html h) c m (doc s) \<rparr>)
      | Unmodelled \<Rightarrow> (Unmodelled, s\<lparr> calls := calls s @ [(t, [JObj (this s)])],
                                doc := set_innerHTML (parse_html h) c m (doc s) \<rparr>))"
  using assms
  by (simp add: render_def get_prop_def seq_def call_fun_def assign_innerHTML_def to_string_def
      append_to_def split: result.splits)


lemma fire_relay:
  assumes "map_of (this st) ''publish'' = None" and "map_of (this st) ''__proto__'' = None"
  shows "fire h (Relay (binding b)) e st = publish h (snd (snd b)) e st"
  using assms by (simp add: fire_def index_binding seq_def to_string_def)

lemma spec_render_Some:
  assumes "spec_render h p c m bs d = Some d'"
  obtains d2 where "appendChild p c (set_innerHTML (parse_html h) c m d) = Return d2"
    and "spec_attach_bindings h c bs d2 = Some d'"
  using assms by (auto simp: spec_render_def split: result.splits)

subsection \<open>\<^verbatim>\<open>render\<close>, step by step\<close>

text \<open>
  C1. When the container is a node of the document, the template returns markup and
  the bindings are triples of strings, \<^verbatim>\<open>render(parent)\<close> does what the
  specification lists, in that order: it calls the template with the instance itself,
  replaces the contents of the container by the markup, appends the container to the
  parent, resolves the bindings in declaration order, and returns the instance.
  Afterwards the markup of the container is the one just produced, whatever it held
  before (so a second call leaves only the second markup), every child of the
  container was created by this call, and an attached handler, when fired, is
  \<^verbatim>\<open>publish(tag, event)\<close> on the instance.
\<close>

theorem render_performs_steps:
  assumes "map_of (this s) ''subdom'' = Some (JNode c)"
    and "map_of (this s) ''compiledTemplate'' = Some (JFun t)"
    and "map_of (this s) ''eventInterfaces'' = Some (JArr (map binding bs))"
    and "apply_fun h t [JObj (this s)] (calls s) = Return (JStr m)"
    and "c < next_node (doc s)"
    and "spec_render h p c m bs (doc s) = Some d'"
    and "map_of (this st) ''publish'' = None" and "map_of (this st) ''__proto__'' = None"
  shows "render h (JNode p) s
           = (Return RThis, s\<lparr> calls := calls s @ [(t, [JObj (this s)])], doc := d' \<rparr>)
       \<and> inner_html d' c = m
       \<and> (\<forall>n \<in> set (children d' c). next_node (doc s) \<le> n)
       \<and> parent d' c = Some p \<and> c \<in> set (children d' p)
       \<and> fire h (Relay (binding b)) e st = publish h (snd (snd b)) e st"
proof -
  let ?d1 = "set_innerHTML (parse_html h) c m (doc s)"
  from assms(6) obtain d2 where ap: "appendChild p c ?d1 = Return d2"
    and at: "spec_attach_bindings h c bs d2 = Some d'"
    by (rule spec_render_Some)
  let ?s2 = "s\<lparr> calls := calls s @ [(t, [JObj (this s)])], doc := d2 \<rparr>"
  have "bind_all h (map binding bs) ?s2 = (Return (), ?s2\<lparr> doc := d' \<rparr>)"
    using assms(1) at by (intro bind_all_spec [where c = c]) simp_all
  then have be: "bind_events h ?s2 = (Return (), ?s2\<lparr> doc := d' \<rparr>)"
    using assms(3) by (simp add: bind_events_def get_prop_def seq_def)
  have r: "render h (JNode p) s
             = (Return RThis, s\<lparr> calls := calls s @ [(t, [JObj (this s)])], doc := d' \<rparr>)"
    by (simp add: render_steps [OF assms(1,2,4)] ap be seq_def)
  have tr: "tree_of d' = tree_of d2" using at by (rule spec_attach_bindings_tree)
  have pc: "p \<noteq> c" using appendChild_Return(1) [OF ap] .
  have ih: "inner_html d' c = m"
    using tr appendChild_Return(5) [OF ap] set_innerHTML_inner_html [OF assms(5)]
    by (simp add: tree_of_def)
  have ch: "\<forall>n \<in> set (children d' c). next_node (doc s) \<le> n"
  proof
    fix n assume "n \<in> set (children d' c)"
    then have "n \<in> set (children d2 c)" using tr by (simp add: tree_of_def)
    then have "n \<in> set (children ?d1 c)"
      using appendChild_Return(7) [OF ap, of c] pc by auto
    from set_innerHTML_children_mem [OF this] show "next_node (doc s) \<le> n" by simp
  qed
  have pa: "parent d' c = Some p \<and> c \<in> set (children d' p)"
    using tr appendChild_Return(2,3) [OF ap] by (simp add: tree_of_def)
  from r ih ch pa fire_relay [OF assms(7,8)] show ?thesis by simp
qed

lemma alice_spec_render:
  "spec_render demo_host 0 2 ''<span class=item>Alice</span>''
     [(''.item'', ''click'', ''itemClicked'')] (doc alice) = Some alice_rendered"
  by (simp add: alice_rendered_def spec_render_def alice_def inst0_def dom0_def createElement_def
      Let_def set_innerHTML_def demo_host_def appendChild_def eval_nat_numeral)

lemma alice_rendered_obs:
  "children alice_rendered 0 = [2] \<and> children alice_rendered 1 = []
   \<and> children alice_rendered 2 = [3]
   \<and> handlers alice_rendered 3 = [(''click'', Relay (binding (''.item'', ''click'', ''itemClicked'')))]"
  by (simp add: alice_rendered_def spec_render_def alice_def inst0_def dom0_def createElement_def
      Let_def set_innerHTML_def demo_host_def appendChild_def addEventListener_def eval_nat_numeral)

theorem render_performs_steps_witness:
  "map_of (this alice) ''subdom'' = Some (JNode 2)
   \<and> map_of (this alice) ''compiledTemplate'' = Some (JFun 0)
   \<and> map_of (this alice) ''eventInterfaces''
       = Some (JArr (map binding [(''.item'', ''click'', ''itemClicked'')]))
   \<and> apply_fun demo_host 0 [JObj (this alice)] (calls alice)
       = Return (JStr ''<span class=item>Alice</span>'')
   \<and> 2 < next_node (doc alice)
   \<and> spec_render demo_host 0 2 ''<span class=item>Alice</span>''
        [(''.item'', ''click'', ''itemClicked'')] (doc alice) = Some alice_rendered
   \<and> map_of (this alice) ''publish'' = None \<and> map_of (this alice) ''__proto__'' = None
   \<and> render demo_host (JNode 0) alice
       = (Return RThis, alice\<lparr> calls := [(0, [JObj (this alice)])], doc := alice_rendered \<rparr>)
   \<and> inner_html alice_rendered 2 = ''<span class=item>Alice</span>''
   \<and> parent alice_rendered 2 = Some 0 \<and> 2 \<in> set (children alice_rendered 0)
   \<and> fire demo_host (Relay (binding (''.item'', ''click'', ''itemClicked''))) (JStr ''click'') alice
       = publish demo_host ''itemClicked'' (JStr ''click'') alice"
proof -
  have a: "map_of (this alice) ''subdom'' = Some (JNode 2)"
    and b: "map_of (this alice) ''compiledTemplate'' = Some (JFun 0)"
    and c: "map_of (this alice) ''eventInterfaces''
              = Some (JArr (map binding [(''.item'', ''click'', ''itemClicked'')]))"
    and g: "map_of (this alice) ''publish'' = None"
    and i: "map_of (this alice) ''__proto__'' = None"
    by (simp_all add: alice_def)
  have d: "apply_fun demo_host 0 [JObj (this alice)] (calls alice)
             = Return (JStr ''<span class=item>Alice</span>'')"
    by (simp add: demo_host_def demo_apply_def alice_def)
  have e: "2 < next_node (doc alice)"
    by (simp add: alice_def inst0_def createElement_def dom0_def Let_def)
  have f: "calls alice = []" by (simp add: alice_def inst0_def)
  from render_performs_steps [OF a b c d e alice_spec_render g i,
      of "(''.item'', ''click'', ''itemClicked'')" "JStr ''click''"]
    a b c d e alice_spec_render g i f
  show ?thesis by simp
qed

subsection \<open>Rendering into a second parent\<close>

lemma assign_innerHTML_Return:
  assumes "assign_innerHTML h (JNode c) v s = (Return u, s')"
  obtains m where "s' = s\<lparr> doc := set_innerHTML (parse_html h) c m (doc s) \<rparr>"
  using assms
  by (cases "case v of JNull \<Rightarrow> Return [] | _ \<Rightarrow> to_string v")
     (auto simp: assign_innerHTML_def seq_def)

lemma render_Return:
  assumes "render h (JNode p) s = (Return r, s')"
    and "map_of (this s) ''subdom'' = Some (JNode c)"
  obtains m s3 where "appendChild p c (set_innerHTML (parse_html h) c m (doc s)) = Return (doc s3)"
    and "bind_events h s3 = (Return (), s')"
proof -
  from assms(2) have gp: "get_prop (this s) ''subdom'' = Return (JNode c)"
    by (simp add: get_prop_def)
  from assms(1) obtain T s1 v s2 u s3 w s4 x where
    t: "(get_prop (this s) ''compiledTemplate'', s) = (Return T, s1)"
    and cf: "call_fun h T [JObj (this s1)] s1 = (Return v, s2)"
    and ai: "assign_innerHTML h (JNode c) v s2 = (Return u, s3)"
    and ap: "append_to (JNode p) (JNode c) s3 = (Return w, s4)"
    and be: "bind_events h s4 = (Return x, s')"
    unfolding render_def gp
    by (auto simp: seq_def [of "(Return (JNode c), s)"] dest!: seq_Return)
  from t have s1: "s1 = s" by simp
  from cf have d2: "doc s2 = doc s" using call_fun_doc [of h T "[JObj (this s1)]" s1] s1 by simp
  from ai obtain m where s3: "s3 = s2\<lparr> doc := set_innerHTML (parse_html h) c m (doc s2) \<rparr>"
    by (rule assign_innerHTML_Return)
  from ap have "appendChild p c (doc s3) = Return (doc s4)"
    by (auto simp: append_to_def split: result.splits)
  then have "appendChild p c (set_innerHTML (parse_html h) c m (doc s)) = Return (doc s4)"
    by (simp add: s3 d2)
  with be that show ?thesis by simp
qed

lemmas run_render =
  render_def get_prop_def seq_def call_fun_def assign_innerHTML_def to_string_def append_to_def
  appendChild_def set_innerHTML_def bind_events_def createElement_def Let_def demo_host_def
  demo_apply_def inst0_def dom0_def eval_nat_numeral

lemma first_render_eval:
  "fst (render demo_host (JNode 0) inst0) = Return RThis"
  "this first_render = this inst0"
  "next_node (doc first_render) = 3"
  "children (doc first_render) = (\<lambda>_. [])(0 := [2])"
  "parent (doc first_render) = (\<lambda>_. None)(2 := Some 0)"
  by (simp_all add: first_render_def run_render fun_eq_iff)

text \<open>
  C6, as stated, fails: the claim is that after \<^verbatim>\<open>render\<close> calls with distinct parents
  the container is attached to every parent ever passed in. A new instance rendered
  into element 0 and then into element 1 is a child of element 1 only: element 0 has no
  child left.
\<close>

theorem render_twice_leaves_first_parent:
  "fst (render demo_host (JNode 0) inst0) = Return RThis
   \<and> children (doc first_render) 0 = [2]
   \<and> fst (render demo_host (JNode 1) first_render) = Return RThis
   \<and> children (doc second_render) 0 = []
   \<and> children (doc second_render) 1 = [2]"
  by (simp add: second_render_def first_render_def run_render)

text \<open>
  C6, amended. \<^verbatim>\<open>render\<close> has no detach step of its own, but \<^verbatim>\<open>appendChild\<close> moves a
  node that already has a parent: whenever \<^verbatim>\<open>render(parent)\<close> returns, for a container
  that is a node of a document in which it is listed only under its parent, the
  container is a child of \<^verbatim>\<open>parent\<close> and of no other node. After calls with distinct
  parents it is attached to the last one only.
\<close>

theorem render_reparents_container:
  assumes "render h (JNode p) s = (Return r, s')"
    and "map_of (this s) ''subdom'' = Some (JNode c)"
    and "c < next_node (doc s)"
    and "\<forall>q. c \<in> set (children (doc s) q) \<longrightarrow> parent (doc s) c = Some q"
  shows "parent (doc s') c = Some p \<and> c \<in> set (children (doc s') p)
       \<and> (\<forall>q. q \<noteq> p \<longrightarrow> c \<notin> set (children (doc s') q))"
proof -
  from render_Return [OF assms(1,2)] obtain m s3 where
    ap: "appendChild p c (set_innerHTML (parse_html h) c m (doc s)) = Return (doc s3)"
    and be: "bind_events h s3 = (Return (), s')" by blast
  let ?d1 = "set_innerHTML (parse_html h) c m (doc s)"
  have tr: "tree_of (doc s') = tree_of (doc s3)"
    using bind_events_tree [of h s3] be by simp
  have cons1: "parent ?d1 c = Some q" if "c \<in> set (children ?d1 q)" for q
  proof -
    from set_innerHTML_children_mem [OF that] assms(3)
    have qc: "q \<noteq> c" and mem: "c \<in> set (children (doc s) q)" by auto
    from mem assms(4) have pq: "parent (doc s) c = Some q" by blast
    have "c \<notin> set (children (doc s) c)"
    proof
      assume "c \<in> set (children (doc s) c)"
      with assms(4) have "parent (doc s) c = Some c" by blast
      with pq qc show False by simp
    qed
    with pq show ?thesis by (simp add: set_innerHTML_parent [OF assms(3)])
  qed
  have "c \<notin> set (children (doc s3) q)" if "q \<noteq> p" for q
  proof (cases "parent ?d1 c = Some q")
    case True
    from appendChild_Return(9) [OF ap that True] show ?thesis .
  next
    case False
    from appendChild_Return(8) [OF ap that False] have "children (doc s3) q = children ?d1 q" .
    with cons1 [of q] False show ?thesis by auto
  qed
  moreover have "parent (doc s3) c = Some p" "c \<in> set (children (doc s3) p)"
    using appendChild_Return(2,3) [OF ap] by simp_all
  ultimately show ?thesis using tr by (simp add: tree_of_def)
qed

theorem render_reparents_container_witness:
  "render demo_host (JNode 1) first_render = (Return RThis, second_render)
   \<and> map_of (this first_render) ''subdom'' = Some (JNode 2)
   \<and> 2 < next_node (doc first_render)
   \<and> children (doc first_render) = (\<lambda>_. [])(0 := [2])
   \<and> parent (doc first_render) 2 = Some 0
   \<and> parent (doc second_render) 2 = Some 1
   \<and> 2 \<in> set (children (doc second_render) 1)
   \<and> 2 \<notin> set (children (doc second_render) 0)
   \<and> 2 \<notin> set (children (doc second_render) 2)"
proof -
  have a: "render demo_host (JNode 1) first_render = (Return RThis, second_render)"
    by (simp add: second_render_def first_render_def run_render)
  have b: "map_of (this first_render) ''subdom'' = Some (JNode 2)"
    by (simp add: first_render_eval inst0_def)
  have c: "2 < next_node (doc first_render)" by (simp add: first_render_eval)
  have d: "\<forall>q. 2 \<in> set (children (doc first_render) q) \<longrightarrow> parent (doc first_render) 2 = Some q"
    by (simp add: first_render_eval)
  have e: "children (doc first_render) = (\<lambda>_. [])(0 := [2])"
    "parent (doc first_render) 2 = Some 0"
    by (simp_all add: first_render_eval)
  from render_reparents_container [OF a b c d] a b c e show ?thesis by simp
qed

subsection \<open>\<^verbatim>\<open>render\<close> after construction and \<^verbatim>\<open>set\<close> calls\<close>


lemma set_all_plain:
  assumes "map_of (this s) ''set'' = None" and "map_of (this s) ''__proto__'' = None"
    and "\<forall>k \<in> fst ` set kvs. k \<noteq> ''set'' \<and> k \<noteq> ''__proto__''"
  shows "\<exists>s'. set_all h kvs s = (Return RThis, s') \<and> doc s' = doc s \<and> calls s' = calls s
            \<and> (\<forall>k. map_of (this s') k = (map_of (this s) ++ map_of (rev kvs)) k)"
  using assms
proof (induction kvs arbitrary: s)
  case Nil
  show ?case by simp
next
  case (Cons kv kvs)
  obtain key v where kv: "kv = (key, v)" by (cases kv)
  from Cons.prems(3) have key: "key \<noteq> ''set''" "key \<noteq> ''__proto__''"
    and rest: "\<forall>k \<in> fst ` set kvs. k \<noteq> ''set'' \<and> k \<noteq> ''__proto__''"
    by (simp_all add: kv)
  let ?s1 = "s\<lparr> this := AList.update key v (this s) \<rparr>"
  have one: "invoke_set h key v s = (Return RThis, ?s1)"
    using Cons.prems(1,2) key by (simp add: invoke_set_def invoke_def set_prop_def put_def)
  have "map_of (this ?s1) ''set'' = None" "map_of (this ?s1) ''__proto__'' = None"
    using Cons.prems(1,2) key by (simp_all add: update_conv')
  from Cons.IH [OF this rest] obtain s' where
    s': "set_all h kvs ?s1 = (Return RThis, s')" "doc s' = doc ?s1" "calls s' = calls ?s1"
        "\<forall>k. map_of (this s') k = (map_of (this ?s1) ++ map_of (rev kvs)) k" by blast
  have "\<forall>k. map_of (this s') k = (map_of (this s) ++ map_of (rev (kv # kvs))) k"
    using s'(4) by (auto simp: kv update_conv' map_add_def split: option.splits)
  with one s' show ?case by (simp add: kv seq_def)
qed

lemma ancestors_subset:
  assumes "\<forall>n q. n < N \<longrightarrow> parent d n = Some q \<longrightarrow> q < N"
    and "\<forall>n. n < N \<longrightarrow> parent d' n = parent d n \<or> parent d' n = None"
    and "p < N"
  shows "set (ancestors d' k p) \<subseteq> set (ancestors d k p)"
  using assms(3)
proof (induction k arbitrary: p)
  case 0
  show ?case by simp
next
  case (Suc k)
  show ?case
  proof (cases "parent d' p")
    case None
    then show ?thesis by simp
  next
    case (Some q)
    with assms(2) Suc.prems have pq: "parent d p = Some q" by force
    with assms(1) Suc.prems have "q < N" by blast
    from Suc.IH [OF this] Some pq show ?thesis by auto
  qed
qed

lemma later_doc_eval:
  "next_node later_doc = 4" "parent later_doc = (\<lambda>_. None)" "children later_doc = (\<lambda>_. [])"
  by (simp_all add: later_doc_def inst0_def dom0_def createElement_def Let_def fun_eq_iff)

lemma two_sets_eval:
  "set_all demo_host two_sets inst0 =
     (Return RThis,
      inst0\<lparr> this := [(''subdom'', JNode 2), (''eventInterfaces'', JArr []),
                      (''eventListeners'', JObj []), (''compiledTemplate'', JFun 0),
                      (''name'', JStr ''Alice'')] \<rparr>)"
  by (simp add: two_sets_def invoke_set_def invoke_def set_prop_def put_def seq_def inst0_def)

text \<open>
  C5, as stated, fails: the claim is that after any sequence of \<^verbatim>\<open>set\<close> calls
  \<^verbatim>\<open>render(parent)\<close> leaves the parent with one more child, the container. \<^verbatim>\<open>set\<close>
  stores the property on the instance itself, so after \<^verbatim>\<open>ui.set("render", 5)\<close> the
  call \<^verbatim>\<open>ui.render(parent)\<close> finds the number 5 and throws a \<^verbatim>\<open>TypeError\<close>; the parent
  has no child.
\<close>

theorem render_shadowed_by_set_fails:
  "fst (set_all demo_host [(''render'', JNum 5)] inst0) = Return RThis
   \<and> fst (invoke_render demo_host (JNode 0) (snd (set_all demo_host [(''render'', JNum 5)] inst0)))
       = Throw TypeError
   \<and> children (doc (snd (invoke_render demo_host (JNode 0)
         (snd (set_all demo_host [(''render'', JNum 5)] inst0))))) 0 = []"
  by (simp add: invoke_set_def invoke_render_def invoke_def set_prop_def put_def seq_def
      call_fun_def inst0_def dom0_def createElement_def Let_def)

text \<open>
  C5, amended. Take a new instance whose template compiled, and a chain of \<^verbatim>\<open>set\<close>
  calls whose keys are none of the names the calls themselves depend on: the fields
  \<^verbatim>\<open>subdom\<close>, \<^verbatim>\<open>compiledTemplate\<close> and \<^verbatim>\<open>eventInterfaces\<close> and the methods \<^verbatim>\<open>set\<close> and
  \<^verbatim>\<open>render\<close> (the key \<^verbatim>\<open>__proto__\<close> is left aside). The chain returns the instance.
  Let the parent be any element of the document as it is when \<^verbatim>\<open>render\<close> is called,
  created before or after the instance, of which the still detached container is not
  an ancestor. If the template evaluates to markup on the instance,
  \<^verbatim>\<open>ui.render(parent)\<close> returns the instance; the parent has its former children
  followed by the container, the other elements keep their children, the container
  holds that markup, and the instance the template was evaluated on holds, under every
  key, the value of the last \<^verbatim>\<open>set\<close> call for that key.
\<close>

theorem render_after_sets:
  assumes "new_TripletUI h raw d cs = Return s0"
    and "\<forall>k \<in> fst ` set kvs. k \<noteq> ''subdom'' \<and> k \<noteq> ''compiledTemplate''
           \<and> k \<noteq> ''eventInterfaces'' \<and> k \<noteq> ''set'' \<and> k \<noteq> ''render'' \<and> k \<noteq> ''__proto__''"
    and "compile h raw = Return t"
    and "apply_fun h t [JObj (this (snd (set_all h kvs s0)))] cs = Return (JStr m)"
    and "next_node d < next_node d1" and "p < next_node d1"
    and "\<forall>n q. n < next_node d1 \<longrightarrow> parent d1 n = Some q \<longrightarrow> q < next_node d1"
    and "parent d1 (next_node d) = None"
    and "\<forall>k. next_node d \<notin> set (ancestors d1 k p)"
  shows "fst (set_all h kvs s0) = Return RThis
       \<and> (\<exists>s'. invoke_render h (JNode p) ((snd (set_all h kvs s0))\<lparr> doc := d1 \<rparr>) = (Return RThis, s')
            \<and> map_of (this s') ''subdom'' = Some (JNode (next_node d))
            \<and> children (doc s') p = children d1 p @ [next_node d]
            \<and> (\<forall>q. q < next_node d1 \<longrightarrow> q \<noteq> p \<longrightarrow> q \<noteq> next_node d
                     \<longrightarrow> children (doc s') q = children d1 q)
            \<and> inner_html (doc s') (next_node d) = m
            \<and> (\<forall>k v. map_of (rev kvs) k = Some v
                      \<longrightarrow> map_of (this (snd (set_all h kvs s0))) k = Some v))"
proof -
  let ?c = "next_node d"
  have s0: "this s0 = [(''subdom'', JNode ?c), (''eventInterfaces'', JArr []),
                       (''eventListeners'', JObj []), (''compiledTemplate'', JFun t)]"
      and c0: "calls s0 = cs"
    using assms(1,3)
    by (auto simp: new_TripletUI_def createElement_def Let_def split: result.splits)
  have keys: "\<forall>k \<in> fst ` set kvs. k \<noteq> ''set'' \<and> k \<noteq> ''__proto__''"
    using assms(2) by blast
  have "map_of (this s0) ''set'' = None" "map_of (this s0) ''__proto__'' = None"
    by (simp_all add: s0)
  from set_all_plain [OF this keys, of h] obtain s1 where
    sa: "set_all h kvs s0 = (Return RThis, s1)" and calls1: "calls s1 = cs"
    and latest: "\<forall>k. map_of (this s1) k = (map_of (this s0) ++ map_of (rev kvs)) k"
    using c0 by auto
  have untouched: "map_of (this s1) k = map_of (this s0) k" if "k \<notin> fst ` set kvs" for k
  proof -
    from that have "map_of (rev kvs) k = None"
      by (simp add: map_of_eq_None_iff)
    with latest show ?thesis by (simp add: map_add_def)
  qed
  have nk: "''subdom'' \<notin> fst ` set kvs" "''compiledTemplate'' \<notin> fst ` set kvs"
    "''eventInterfaces'' \<notin> fst ` set kvs" "''render'' \<notin> fst ` set kvs"
    "''__proto__'' \<notin> fst ` set kvs"
    using assms(2) by blast+
  let ?s1 = "s1\<lparr> doc := d1 \<rparr>"
  have sub: "map_of (this ?s1) ''subdom'' = Some (JNode ?c)"
    and tmpl: "map_of (this ?s1) ''compiledTemplate'' = Some (JFun t)"
    and evi: "map_of (this ?s1) ''eventInterfaces'' = Some (JArr [])"
    and ren: "map_of (this ?s1) ''render'' = None"
    and pro: "map_of (this ?s1) ''__proto__'' = None"
    using nk by (simp_all add: untouched s0)
  let ?d2 = "set_innerHTML (parse_html h) ?c m d1"
  have par2: "\<forall>n. n < next_node d1 \<longrightarrow> parent ?d2 n = parent d1 n \<or> parent ?d2 n = None"
    by (simp add: set_innerHTML_parent)
  have par2c: "parent ?d2 ?c = None"
    using assms(5,8) by (simp add: set_innerHTML_parent)
  have notanc: "?c \<notin> set (ancestors ?d2 (next_node ?d2) p)"
    using ancestors_subset [OF assms(7) par2 assms(6), of "next_node ?d2"] assms(9) by blast
  let ?d3 = "?d2\<lparr> children := (children ?d2)(p := children ?d2 p @ [?c]),
                   parent := (parent ?d2)(?c := Some p) \<rparr>"
  have ap: "appendChild p ?c ?d2 = Return ?d3"
    using appendChild_detached [OF notanc par2c] .
  have pc: "p \<noteq> ?c" using assms(9) [rule_format, of 0] by simp
  have chq: "children ?d2 q = children d1 q" if "q < next_node d1" "q \<noteq> ?c" for q
    using that by (rule set_innerHTML_children_other)
  let ?s3 = "s1\<lparr> calls := cs @ [(t, [JObj (this s1)])], doc := ?d3 \<rparr>"
  have be: "bind_events h ?s3 = (Return (), ?s3)"
    using evi by (simp add: bind_events_def get_prop_def seq_def)
  have ap4: "apply_fun h t [JObj (this ?s1)] (calls ?s1) = Return (JStr m)"
    using assms(4) calls1 sa by simp
  have "render h (JNode p) ?s1 = (Return RThis, ?s3)"
    unfolding render_steps [OF sub tmpl ap4, of p]
    using ap by (simp add: calls1 be seq_def)
  then have r: "invoke_render h (JNode p) ?s1 = (Return RThis, ?s3)"
    using ren pro by (simp add: invoke_render_def invoke_def)
  have ih: "inner_html ?d3 ?c = m"
    using set_innerHTML_inner_html [OF assms(5), of "parse_html h" m] by simp
  have lv: "\<forall>k v. map_of (rev kvs) k = Some v \<longrightarrow> map_of (this s1) k = Some v"
    using latest by (simp add: map_add_def)
  have "\<exists>s'. invoke_render h (JNode p) ?s1 = (Return RThis, s')
            \<and> map_of (this s') ''subdom'' = Some (JNode ?c)
            \<and> children (doc s') p = children d1 p @ [?c]
            \<and> (\<forall>q. q < next_node d1 \<longrightarrow> q \<noteq> p \<longrightarrow> q \<noteq> ?c
                     \<longrightarrow> children (doc s') q = children d1 q)
            \<and> inner_html (doc s') ?c = m"
    using r sub ih chq pc assms(6)
    by (intro exI [of _ ?s3]) simp
  with sa lv show ?thesis by simp
qed

theorem render_after_sets_witness:
  "new_TripletUI demo_host (JStr ''{{name}}'') dom0 [] = Return inst0
   \<and> compile demo_host (JStr ''{{name}}'') = Return 0
   \<and> apply_fun demo_host 0 [JObj (this (snd (set_all demo_host two_sets inst0)))] []
       = Return (JStr ''<span class=item>Alice</span>'')
   \<and> next_node dom0 = 2 \<and> next_node later_doc = 4 \<and> parent later_doc = (\<lambda>_. None)
   \<and> fst (set_all demo_host two_sets inst0) = Return RThis
   \<and> (\<exists>s'. invoke_render demo_host (JNode 3)
               ((snd (set_all demo_host two_sets inst0))\<lparr> doc := later_doc \<rparr>)
             = (Return RThis, s')
           \<and> map_of (this s') ''subdom'' = Some (JNode 2)
           \<and> children (doc s') 3 = [2]
           \<and> children (doc s') 0 = []
           \<and> inner_html (doc s') 2 = ''<span class=item>Alice</span>'')
   \<and> map_of (this (snd (set_all demo_host two_sets inst0))) ''name'' = Some (JStr ''Alice'')"
proof -
  have b: "\<forall>k \<in> fst ` set two_sets. k \<noteq> ''subdom'' \<and> k \<noteq> ''compiledTemplate''
           \<and> k \<noteq> ''eventInterfaces'' \<and> k \<noteq> ''set'' \<and> k \<noteq> ''render'' \<and> k \<noteq> ''__proto__''"
    by (simp add: two_sets_def)
  have c: "compile demo_host (JStr ''{{name}}'') = Return 0"
    by (simp add: demo_host_def)
  have e: "apply_fun demo_host 0 [JObj (this (snd (set_all demo_host two_sets inst0)))] []
             = Return (JStr ''<span class=item>Alice</span>'')"
    unfolding two_sets_eval by (simp add: demo_host_def demo_apply_def)
  have n0: "next_node dom0 = 2" by (simp add: dom0_def)
  have f: "next_node dom0 < next_node later_doc" "3 < next_node later_doc"
    by (simp_all add: later_doc_eval n0)
  have g: "\<forall>n q. n < next_node later_doc \<longrightarrow> parent later_doc n = Some q \<longrightarrow> q < next_node later_doc"
    by (simp add: later_doc_eval)
  have i: "parent later_doc (next_node dom0) = None" by (simp add: later_doc_eval)
  have j: "\<forall>k. next_node dom0 \<notin> set (ancestors later_doc k 3)"
  proof
    fix k show "next_node dom0 \<notin> set (ancestors later_doc k 3)"
      by (cases k) (simp_all add: later_doc_eval n0)
  qed
  have l: "map_of (rev two_sets) ''name'' = Some (JStr ''Alice'')" by (simp add: two_sets_def)
  from render_after_sets [OF new_inst0 b c e f g i j]
  obtain s' where
    "fst (set_all demo_host two_sets inst0) = Return RThis"
    "invoke_render demo_host (JNode 3) ((snd (set_all demo_host two_sets inst0))\<lparr> doc := later_doc \<rparr>)
       = (Return RThis, s')"
    "map_of (this s') ''subdom'' = Some (JNode (next_node dom0))"
    "children (doc s') 3 = children later_doc 3 @ [next_node dom0]"
    "\<forall>q. q < next_node later_doc \<longrightarrow> q \<noteq> 3 \<longrightarrow> q \<noteq> next_node dom0
         \<longrightarrow> children (doc s') q = children later_doc q"
    "inner_html (doc s') (next_node dom0) = ''<span class=item>Alice</span>''"
    "\<forall>k v. map_of (rev two_sets) k = Some v
         \<longrightarrow> map_of (this (snd (set_all demo_host two_sets inst0))) k = Some v"
    by blast
  then have "fst (set_all demo_host two_sets inst0) = Return RThis
     \<and> (\<exists>s'. invoke_render demo_host (JNode 3)
               ((snd (set_all demo_host two_sets inst0))\<lparr> doc := later_doc \<rparr>)
             = (Return RThis, s')
           \<and> map_of (this s') ''subdom'' = Some (JNode 2)
           \<and> children (doc s') 3 = [2]
           \<and> children (doc s') 0 = []
           \<and> inner_html (doc s') 2 = ''<span class=item>Alice</span>'')
     \<and> map_of (this (snd (set_all demo_host two_sets inst0))) ''name'' = Some (JStr ''Alice'')"
    using l n0 later_doc_eval by (intro conjI exI [of _ s']) simp_all
  with new_inst0 c e n0 later_doc_eval show ?thesis by simp
qed

subsection \<open>The binding list under the calls of the class\<close>

lemma frame_this: "this s' = this s \<Longrightarrow> frame s' = frame s"
  by (simp add: frame_def bindings_of_def held_listeners_def)

lemma held_listenersE:
  assumes "held_listeners s"
  obtains ps where "map_of (this s) ''eventListeners'' = Some (JObj ps)"
  using assms by (auto simp: held_listeners_def split: option.splits jsval.splits)

lemma ensure_tag_frame:
  assumes "held_listeners s"
  shows "frame (snd (ensure_tag h tag s)) = frame s"
proof -
  from assms obtain ps where ps: "map_of (this s) ''eventListeners'' = Some (JObj ps)"
    by (rule held_listenersE)
  have hc: "this (snd (hasOwnProperty_call h (JObj ps) tag s)) = this s"
    by (rule hasOwnProperty_call_this)
  show ?thesis
    unfolding ensure_tag_def
    apply (simp add: get_prop_def ps seq_def [of "(Return (JObj ps), s)"])
    apply (rule seq_frame [where g = frame])
     apply (simp add: frame_this [OF hc])
    using assms
    apply (auto simp: frame_def bindings_of_def held_listeners_def update_conv' Let_def)
    done
qed

lemma ensure_tag_held:
  "held_listeners s \<Longrightarrow> held_listeners (snd (ensure_tag h tag s))"
  using ensure_tag_frame [of s h tag] by (simp add: frame_def)











end
